theory Spec2Isabelle
  imports Main "HOL-Library.Word"
begin

unbundle bit_operations_syntax

section \<open>Bytes and raw memory\<close>

text \<open>
  The driver works on raw byte buffers through pointers. A buffer is modelled as a
  function from byte offsets to bytes; \<open>memcpy(dst + off, src, n)\<close> is \<open>store_bytes\<close>
  with the \<open>n\<close> copied bytes given as a list, and reading a buffer back as a block of
  \<open>n\<close> bytes is \<open>load_bytes\<close>.
\<close>

type_synonym u8 = "8 word"
type_synonym mem = "nat \<Rightarrow> u8"

definition store_bytes :: "mem \<Rightarrow> nat \<Rightarrow> u8 list \<Rightarrow> mem" where
  "store_bytes m off bs = (\<lambda>i. if off \<le> i \<and> i < off + length bs then bs ! (i - off) else m i)"

definition load_bytes :: "mem \<Rightarrow> nat \<Rightarrow> u8 list" where
  "load_bytes m n = map m [0..<n]"

section \<open>The UVC payload deframer (CamDeframer.cpp, UVCDeframer.cpp)\<close>

text \<open>The status codes the modelled functions return.\<close>

datatype status_t = B_OK | B_ERROR | B_BAD_INDEX | B_NO_MEMORY | ENOENT

definition MAXFRAMEBUF :: nat where
  "MAXFRAMEBUF = 8"

definition CAMDEFRAMER_FRAME_POOL_SIZE :: nat where
  "CAMDEFRAMER_FRAME_POOL_SIZE = 12"

text \<open>
  The state of a \<open>UVCDeframer\<close> (with the members of its base class \<open>CamDeframer\<close>).
  A \<open>CamFrame\<close> is a \<open>BMallocIO\<close>: it is modelled by the bytes it holds. A frame is written
  once, right after it was created or reset, so \<open>CamFrame::Write\<close> appends.
  \<open>fFrames\<close> is the queue of published frames, oldest first; \<open>fFramePool\<close> the recycled
  frames; \<open>fCurrentFrame\<close> the frame being filled (\<open>None\<close> is \<open>NULL\<close>); \<open>fFrameSem\<close> the
  count of the frame semaphore. \<open>fFixedBuffer\<close> is the buffer allocated by the constructor
  (\<open>None\<close> when \<open>malloc\<close> failed), \<open>fInputBuffer\<close> the \<open>BMallocIO\<close> member.
  \<open>sHeaderErrors\<close> is the function-static counter of rejected headers in \<open>Write\<close>.
  Log output and the timestamps are left out.
\<close>

record deframer =
  fFrames :: "u8 list list"
  fFramePool :: "u8 list list"
  fCurrentFrame :: "u8 list option"
  fFrameSem :: nat
  fPoolHits :: nat
  fPoolMisses :: nat
  fFrameCount :: nat
  fID :: nat
  fInputBuffer :: "u8 list"
  fExpectedFrameSize :: nat
  fFixedBuffer :: "mem option"
  fFixedBufferSize :: nat
  fFixedBufferPos :: nat
  fFramesCompleted :: nat
  fFramesIncomplete :: nat
  fFIDChanges :: nat
  fQueueOverflows :: nat
  fPacketsThisFrame :: nat
  fTotalBytesThisFrame :: nat
  sHeaderErrors :: nat

subsection \<open>\<open>CamDeframer\<close>: frame pool and queue\<close>

text \<open>
  \<open>AllocFrame\<close> takes the last frame of the pool, reset to size 0, or creates a new one.
\<close>

definition AllocFrame :: "deframer \<Rightarrow> u8 list \<times> deframer" where
  "AllocFrame d =
     (if length (fFramePool d) > 0
      then ([], d\<lparr>fFramePool := butlast (fFramePool d), fPoolHits := fPoolHits d + 1\<rparr>)
      else ([], d\<lparr>fPoolMisses := fPoolMisses d + 1\<rparr>))"

text \<open>\<open>RecycleFrame\<close> of a frame that is not \<open>NULL\<close>.\<close>

definition RecycleFrame :: "deframer \<Rightarrow> u8 list \<Rightarrow> deframer" where
  "RecycleFrame d frame =
     (if length (fFramePool d) < CAMDEFRAMER_FRAME_POOL_SIZE
      then d\<lparr>fFramePool := fFramePool d @ [[]]\<rparr>
      else d)"

definition GetFrame :: "deframer \<Rightarrow> (status_t + u8 list) \<times> deframer" where
  "GetFrame d =
     (case fFrames d of
        [] \<Rightarrow> (Inl ENOENT, d)
      | f # fs \<Rightarrow> (Inr f, d\<lparr>fFrames := fs\<rparr>))"

definition DropFrame :: "deframer \<Rightarrow> status_t \<times> deframer" where
  "DropFrame d =
     (case fFrames d of
        [] \<Rightarrow> (ENOENT, d)
      | f # fs \<Rightarrow> (B_OK, d\<lparr>fFrames := fs\<rparr>))"

definition CamDeframer_Flush :: "deframer \<Rightarrow> deframer" where
  "CamDeframer_Flush d =
     d\<lparr>fFrames := [],
       fCurrentFrame := (case fCurrentFrame d of None \<Rightarrow> None | Some f \<Rightarrow> Some []),
       fFrameSem := 0\<rparr>"

subsection \<open>\<open>UVCDeframer\<close>: construction, \<open>Flush\<close>, \<open>SetExpectedFrameSize\<close>\<close>

text \<open>
  The constructor; its argument is what \<open>malloc(4 * 1024 * 1024)\<close> returned: \<open>None\<close>, or
  the contents of the fresh block. The base class constructor allocates the first
  current frame.
\<close>

definition UVCDeframer_new :: "mem option \<Rightarrow> deframer" where
  "UVCDeframer_new fixed =
     \<lparr> fFrames = [], fFramePool = [], fCurrentFrame = Some [], fFrameSem = 0,
       fPoolHits = 0, fPoolMisses = 1, fFrameCount = 0, fID = 0, fInputBuffer = [],
       fExpectedFrameSize = 0, fFixedBuffer = fixed, fFixedBufferSize = 4 * 1024 * 1024,
       fFixedBufferPos = 0, fFramesCompleted = 0, fFramesIncomplete = 0, fFIDChanges = 0,
       fQueueOverflows = 0, fPacketsThisFrame = 0, fTotalBytesThisFrame = 0,
       sHeaderErrors = 0 \<rparr>"

definition SetExpectedFrameSize :: "deframer \<Rightarrow> nat \<Rightarrow> deframer" where
  "SetExpectedFrameSize d sz = d\<lparr>fExpectedFrameSize := sz\<rparr>"

definition Flush :: "deframer \<Rightarrow> deframer" where
  "Flush d =
     (CamDeframer_Flush d)\<lparr>fInputBuffer := [], fFixedBufferPos := 0, fID := 0,
                             fPacketsThisFrame := 0\<rparr>"

subsection \<open>\<open>UVCDeframer::Write\<close>\<close>

text \<open>The header check at the top of \<open>Write\<close>, and the two flag bits it reads.\<close>

definition header_invalid :: "u8 list \<Rightarrow> bool" where
  "header_invalid buf = (length buf < 2 \<or> unat (buf ! 0) < 2 \<or> unat (buf ! 0) > length buf)"

definition payload :: "u8 list \<Rightarrow> u8 list" where
  "payload buf = drop (unat (buf ! 0)) buf"

definition eof_flag :: "u8 list \<Rightarrow> bool" where
  "eof_flag buf = (buf ! 1 AND 0x02 \<noteq> 0)"

definition fid_changed :: "deframer \<Rightarrow> u8 list \<Rightarrow> bool" where
  "fid_changed d buf = (unat (buf ! 1 AND 0x01) \<noteq> fID d)"

text \<open>
  The block under \<open>if (fExpectedFrameSize == 0 && fInputBuffer.BufferLength() > 0)\<close>:
  the previous MJPEG frame is taken from \<open>fInputBuffer\<close> and published.
\<close>

definition complete_previous_mjpeg :: "deframer \<Rightarrow> deframer" where
  "complete_previous_mjpeg d =
     (let queueCount = length (fFrames d);
          d1 = (if queueCount \<ge> MAXFRAMEBUF
                then d\<lparr>fQueueOverflows := fQueueOverflows d + 1\<rparr> else d);
          d2 = (if fCurrentFrame d1 = None \<and> queueCount < MAXFRAMEBUF
                then (case AllocFrame d1 of (f, d') \<Rightarrow> d'\<lparr>fCurrentFrame := Some f\<rparr>)
                else d1)
      in case fCurrentFrame d2 of
           None \<Rightarrow> d2
         | Some cur \<Rightarrow>
             (let frameData = fInputBuffer d2;
                  frameSize = length frameData;
                  cur' = (if frameSize > 0 then cur @ frameData else cur)
              in d2\<lparr>fFrameCount := fFrameCount d2 + 1,
                    fFramesCompleted := fFramesCompleted d2 + 1,
                    fFrames := fFrames d2 @ [cur'],
                    fFrameSem := fFrameSem d2 + 1,
                    fCurrentFrame := None\<rparr>))"

text \<open>The block under \<open>if (fidChanged)\<close>.\<close>

definition fid_stage :: "deframer \<Rightarrow> u8 list \<Rightarrow> deframer" where
  "fid_stage d buf =
     (if fid_changed d buf
      then (let d1 = d\<lparr>fFIDChanges := fFIDChanges d + 1, fID := unat (buf ! 1 AND 0x01)\<rparr>;
                d2 = (if fExpectedFrameSize d1 = 0 \<and> length (fInputBuffer d1) > 0
                      then complete_previous_mjpeg d1 else d1)
            in d2\<lparr>fInputBuffer := [], fFixedBufferPos := 0, fPacketsThisFrame := 1,
                  fTotalBytesThisFrame := 0\<rparr>)
      else d)"

text \<open>
  \<open>if (fCurrentFrame == NULL)\<close>: a frame is allocated while the queue is below
  \<open>MAXFRAMEBUF\<close>; \<open>None\<close> is the branch that counts an overflow and returns.
\<close>

definition alloc_stage :: "deframer \<Rightarrow> deframer option" where
  "alloc_stage d =
     (if fCurrentFrame d = None
      then (if length (fFrames d) < MAXFRAMEBUF
            then (case AllocFrame d of (f, d') \<Rightarrow> Some (d'\<lparr>fCurrentFrame := Some f\<rparr>))
            else None)
      else Some d)"

text \<open>
  The payload is counted, clipped to the space left in fixed-size mode, and copied
  into the fixed buffer at \<open>fFixedBufferPos\<close>.
\<close>

definition append_payload :: "deframer \<Rightarrow> u8 list \<Rightarrow> deframer" where
  "append_payload d buf =
     (let payloadSize = length buf - unat (buf ! 0);
          d1 = d\<lparr>fTotalBytesThisFrame := fTotalBytesThisFrame d + payloadSize\<rparr>;
          bytesToWrite =
            (if fExpectedFrameSize d1 > 0
             then (let currentSize = fFixedBufferPos d1;
                       spaceLeft = (if currentSize < fExpectedFrameSize d1
                                    then fExpectedFrameSize d1 - currentSize else 0)
                   in if payloadSize > spaceLeft then spaceLeft else payloadSize)
             else payloadSize)
      in case fFixedBuffer d1 of
           None \<Rightarrow> d1
         | Some m \<Rightarrow>
             (if bytesToWrite > 0
              then (if fFixedBufferPos d1 + bytesToWrite \<le> fFixedBufferSize d1
                    then d1\<lparr>fFixedBuffer :=
                               Some (store_bytes m (fFixedBufferPos d1) (take bytesToWrite (payload buf))),
                            fFixedBufferPos := fFixedBufferPos d1 + bytesToWrite\<rparr>
                    else d1)
              else d1))"

text \<open>The padding loop \<open>while (fFixedBufferPos < fExpectedFrameSize)\<close>.\<close>

definition padPattern :: "u8 list" where
  "padPattern = [0x00, 0x80, 0x00, 0x80]"

function pad_loop :: "mem \<Rightarrow> nat \<Rightarrow> nat \<Rightarrow> mem \<times> nat" where
  "pad_loop m pos expected =
     (if pos < expected
      then (let remaining = expected - pos;
                toWrite = (if remaining < 4 then remaining else 4)
            in pad_loop (store_bytes m pos (take toWrite padPattern)) (pos + toWrite) expected)
      else (m, pos))"
  by pat_completeness auto
termination
  by (relation "measure (\<lambda>(m, pos, expected). expected - pos)") (auto simp: Let_def)

declare pad_loop.simps [simp del]

text \<open>
  ``Determine if frame is complete'': the state after the optional padding, and the
  flag \<open>frameComplete\<close>.
\<close>

definition detect_complete :: "deframer \<Rightarrow> bool \<Rightarrow> bool \<Rightarrow> deframer \<times> bool" where
  "detect_complete d eof fidChanged =
     (let currentSize = fFixedBufferPos d
      in if fExpectedFrameSize d > 0
         then (if eof
               then (case fFixedBuffer d of
                       Some m \<Rightarrow>
                         (if currentSize < fExpectedFrameSize d
                          then (case pad_loop m (fFixedBufferPos d) (fExpectedFrameSize d) of
                                  (m', pos') \<Rightarrow>
                                    (d\<lparr>fFixedBuffer := Some m', fFixedBufferPos := pos'\<rparr>, True))
                          else (d, True))
                     | None \<Rightarrow> (d, True))
               else if currentSize \<ge> fExpectedFrameSize d then (d, True)
               else (d, False))
         else (d, eof \<and> \<not> fidChanged))"

text \<open>
  ``Complete frame - add to queue''. The frame data are the fixed buffer up to
  \<open>fFixedBufferPos\<close> in fixed-size mode and \<open>fInputBuffer\<close> otherwise. \<open>fCurrentFrame\<close> is
  never \<open>NULL\<close> here: \<open>Write\<close> has returned before when no frame could be allocated.
\<close>

definition complete_frame :: "deframer \<Rightarrow> deframer" where
  "complete_frame d =
     (let d1 = d\<lparr>fFrameCount := fFrameCount d + 1, fFramesCompleted := fFramesCompleted d + 1\<rparr>;
          frameData = (case fFixedBuffer d1 of
                         Some m \<Rightarrow> (if fExpectedFrameSize d1 > 0
                                    then load_bytes m (fFixedBufferPos d1)
                                    else fInputBuffer d1)
                       | None \<Rightarrow> fInputBuffer d1);
          frameSize = length frameData;
          d2 = (if fExpectedFrameSize d1 > 0 \<and> frameSize < fExpectedFrameSize d1
                then d1\<lparr>fFramesIncomplete := fFramesIncomplete d1 + 1\<rparr> else d1)
      in case fCurrentFrame d2 of
           None \<Rightarrow> d2
         | Some cur \<Rightarrow>
             d2\<lparr>fFrames := fFrames d2 @ [if frameSize > 0 then cur @ frameData else cur],
                fFrameSem := fFrameSem d2 + 1,
                fCurrentFrame := None,
                fInputBuffer := [],
                fFixedBufferPos := 0,
                fPacketsThisFrame := 0\<rparr>)"

text \<open>
  \<open>Write\<close> returns \<open>B_ERROR\<close> (\<open>Inl\<close>) or the packet size (\<open>Inr\<close>), and the new state.
\<close>

definition Write :: "deframer \<Rightarrow> u8 list \<Rightarrow> (status_t + nat) \<times> deframer" where
  "Write d buf =
     (let sz = length buf;
          d0 = d\<lparr>fPacketsThisFrame := fPacketsThisFrame d + 1\<rparr>
      in if header_invalid buf
         then (Inl B_ERROR, d0\<lparr>sHeaderErrors := sHeaderErrors d0 + 1\<rparr>)
         else if sz - unat (buf ! 0) = 0 then (Inr sz, d0)
         else (let eof = eof_flag buf;
                   fidChanged = fid_changed d0 buf;
                   d1 = fid_stage d0 buf
               in case alloc_stage d1 of
                    None \<Rightarrow> (Inr sz, d1\<lparr>fQueueOverflows := fQueueOverflows d1 + 1\<rparr>)
                  | Some d2 \<Rightarrow>
                      (case detect_complete (append_payload d2 buf) eof fidChanged of
                         (d4, frameComplete) \<Rightarrow>
                           (Inr sz, if frameComplete then complete_frame d4 else d4))))"

text \<open>A sequence of packets, written one after the other.\<close>

fun writes :: "deframer \<Rightarrow> u8 list list \<Rightarrow> deframer" where
  "writes d [] = d"
| "writes d (buf # bufs) = writes (snd (Write d buf)) bufs"

subsection \<open>The states a deframer can be in\<close>

text \<open>
  The deframer is shared by the pump thread, which calls \<open>Write\<close>, and the consumer, which
  calls \<open>GetFrame\<close>, \<open>DropFrame\<close>, \<open>RecycleFrame\<close>, \<open>Flush\<close> and \<open>SetExpectedFrameSize\<close>; the
  queue is touched under \<open>fLocker\<close>. The reachable states are those any interleaving of
  these calls produces from a new deframer.
\<close>

inductive reachable :: "deframer \<Rightarrow> bool" where
  r_new: "reachable (UVCDeframer_new fixed)"
| r_write: "reachable d \<Longrightarrow> reachable (snd (Write d buf))"
| r_get: "reachable d \<Longrightarrow> reachable (snd (GetFrame d))"
| r_drop: "reachable d \<Longrightarrow> reachable (snd (DropFrame d))"
| r_recycle: "reachable d \<Longrightarrow> reachable (RecycleFrame d frame)"
| r_flush: "reachable d \<Longrightarrow> reachable (Flush d)"
| r_expected: "reachable d \<Longrightarrow> reachable (SetExpectedFrameSize d sz)"

text \<open>
  The fixed-size (YUY2) mode in working order: an expected size that fits the allocated
  fixed buffer (``max 1920x1080x2 = 4MB'', the constructor says), a fill that has not
  passed it, and a queue of frames of the expected size. A new or flushed deframer is
  in this state once \<open>SetExpectedFrameSize\<close> has been called with such a size.
\<close>

definition yuy2_inv :: "deframer \<Rightarrow> bool" where
  "yuy2_inv d =
     (fExpectedFrameSize d > 0 \<and> fFixedBuffer d \<noteq> None
      \<and> fExpectedFrameSize d \<le> fFixedBufferSize d
      \<and> fFixedBufferPos d \<le> fExpectedFrameSize d
      \<and> (\<forall>f \<in> set (fFrames d). length f = fExpectedFrameSize d))"

definition frame_available :: "deframer \<Rightarrow> bool" where
  "frame_available d = (fCurrentFrame d \<noteq> None \<or> length (fFrames d) < MAXFRAMEBUF)"

text \<open>The contents of the fixed buffer, \<open>None\<close> being an empty fill.\<close>

definition fixed_bytes :: "deframer \<Rightarrow> nat \<Rightarrow> u8 list" where
  "fixed_bytes d n = (case fFixedBuffer d of None \<Rightarrow> [] | Some m \<Rightarrow> load_bytes m n)"

definition pad_bytes :: "nat \<Rightarrow> u8 list" where
  "pad_bytes n = map (\<lambda>i. padPattern ! (i mod 4)) [0..<n]"

text \<open>
  The bound on the queue, with what keeps it: a current frame exists only while the queue
  is below the bound, and \<open>fInputBuffer\<close> stays empty.
\<close>

definition queue_inv :: "deframer \<Rightarrow> bool" where
  "queue_inv d =
     (length (fFrames d) \<le> MAXFRAMEBUF
      \<and> (fCurrentFrame d \<noteq> None \<longrightarrow> length (fFrames d) < MAXFRAMEBUF)
      \<and> fInputBuffer d = [])"

section \<open>YUY2 to BGRA conversion (UVCCamDevice.cpp)\<close>

subsection \<open>The lookup tables: \<open>yuv_rgb_lookup_tables::Initialize\<close>\<close>

record yuv_rgb_lookup_tables =
  y_table :: "int list"
  u_b_table :: "int list"
  u_g_table :: "int list"
  v_r_table :: "int list"
  v_g_table :: "int list"
  initialized :: bool

text \<open>The global \<open>gYuvRgbTables\<close> before its first use: zeroed arrays, not initialized.\<close>

definition gYuvRgbTables :: yuv_rgb_lookup_tables where
  "gYuvRgbTables =
     \<lparr> y_table = replicate 256 0, u_b_table = replicate 256 0, u_g_table = replicate 256 0,
       v_r_table = replicate 256 0, v_g_table = replicate 256 0, initialized = False \<rparr>"

definition Initialize :: "yuv_rgb_lookup_tables \<Rightarrow> yuv_rgb_lookup_tables" where
  "Initialize t =
     (if initialized t then t
      else \<lparr> y_table = map (\<lambda>i. 298 * (int i - 16)) [0..<256],
             u_b_table = map (\<lambda>i. 516 * (int i - 128)) [0..<256],
             u_g_table = map (\<lambda>i. - 100 * (int i - 128)) [0..<256],
             v_r_table = map (\<lambda>i. 409 * (int i - 128)) [0..<256],
             v_g_table = map (\<lambda>i. - 208 * (int i - 128)) [0..<256],
             initialized = True \<rparr>)"

subsection \<open>\<open>clamp255\<close> and one macro-pixel\<close>

definition clamp255 :: "int \<Rightarrow> u8" where
  "clamp255 v = (let v1 = (if v < 0 then 0 else v) in word_of_int (if v1 > 255 then 255 else v1))"

text \<open>
  The body of the inner loop for one macro-pixel \<open>Y0 U Y1 V\<close>: six table lookups, then
  the eight destination bytes B G R A B G R A. The C expression \<open>x >> 8\<close> on a negative
  \<open>int32\<close> is the arithmetic shift, \<open>drop_bit 8\<close> on \<open>int\<close>.
\<close>

definition convert_macropixel :: "yuv_rgb_lookup_tables \<Rightarrow> u8 \<Rightarrow> u8 \<Rightarrow> u8 \<Rightarrow> u8 \<Rightarrow> u8 list" where
  "convert_macropixel t y0 u y1 v =
     (let yVal0 = y_table t ! unat y0;
          yVal1 = y_table t ! unat y1;
          uB = u_b_table t ! unat u;
          uG = u_g_table t ! unat u;
          vR = v_r_table t ! unat v;
          vG = v_g_table t ! unat v
      in [clamp255 (drop_bit 8 (yVal0 + uB + 128)),
          clamp255 (drop_bit 8 (yVal0 + uG + vG + 128)),
          clamp255 (drop_bit 8 (yVal0 + vR + 128)),
          255,
          clamp255 (drop_bit 8 (yVal1 + uB + 128)),
          clamp255 (drop_bit 8 (yVal1 + uG + vG + 128)),
          clamp255 (drop_bit 8 (yVal1 + vR + 128)),
          255])"

subsection \<open>The row loops of \<open>_ConvertYUY2toRGB32\<close>\<close>

text \<open>
  The conversion state: the destination buffer and the trace of the source offsets that
  have been read, in order.
\<close>

record conv =
  conv_dst :: mem
  conv_reads :: "nat list"

text \<open>
  The inner loop \<open>for (x = 0; x < width; x += 2)\<close>: \<open>sp\<close> and \<open>dp\<close> are the offsets of
  \<open>srcRow\<close> and \<open>dstRow\<close> from \<open>src\<close> and \<open>dst\<close>. The loops run only after the guard
  \<open>width <= 0 || height <= 0\<close> has been passed, so the \<open>int32\<close> counters and bounds are
  natural numbers here.
\<close>

function convert_row ::
  "yuv_rgb_lookup_tables \<Rightarrow> mem \<Rightarrow> conv \<Rightarrow> nat \<Rightarrow> nat \<Rightarrow> nat \<Rightarrow> nat \<Rightarrow> conv" where
  "convert_row t src c sp dp x width =
     (if x < width
      then convert_row t src
             \<lparr> conv_dst = store_bytes (conv_dst c) dp
                  (convert_macropixel t (src sp) (src (sp + 1)) (src (sp + 2)) (src (sp + 3))),
               conv_reads = conv_reads c @ [sp, sp + 1, sp + 2, sp + 3] \<rparr>
             (sp + 4) (dp + 8) (x + 2) width
      else c)"
  by pat_completeness auto
termination
  by (relation "measure (\<lambda>(t, src, c, sp, dp, x, width). width - x)") auto

declare convert_row.simps [simp del]

text \<open>
  The outer loop \<open>for (row = 0; row < height; row++)\<close> with its bounds check
  \<open>(srcRow - src) + srcStride > srcSize\<close>, which leaves the loop.
\<close>

function convert_rows ::
  "yuv_rgb_lookup_tables \<Rightarrow> mem \<Rightarrow> nat \<Rightarrow> conv \<Rightarrow> nat \<Rightarrow> nat \<Rightarrow> nat \<Rightarrow> conv" where
  "convert_rows t src srcSize c row width height =
     (if row < height
      then (let srcStride = width * 2;
                dstStride = width * 4;
                srcRow = row * srcStride;
                dstRow = row * dstStride
            in if srcRow + srcStride > srcSize then c
               else convert_rows t src srcSize (convert_row t src c srcRow dstRow 0 width)
                      (row + 1) width height)
      else c)"
  by pat_completeness auto
termination
  by (relation "measure (\<lambda>(t, src, srcSize, c, row, width, height). height - row)") auto

declare convert_rows.simps [simp del]

subsection \<open>The diagnostics block and the whole function\<close>

text \<open>
  For its first five calls (the static counter \<open>sYUY2Diag\<close>) the function logs the first
  eight source bytes, and, when the source holds at least two rows, compares the start
  of row 0 with the bytes at the offsets 512, 1024, 2048 and \<open>width * 2\<close> while
  \<open>srcSize > offset + 8\<close>. Only the reads matter here.
\<close>

fun stride_test_reads :: "nat \<Rightarrow> nat list \<Rightarrow> nat list" where
  "stride_test_reads srcSize [] = []"
| "stride_test_reads srcSize (off # offs) =
     (if srcSize > off + 8
      then [0, off, 2, off + 2, 4, off + 4, 6, off + 6] @ stride_test_reads srcSize offs
      else [])"

definition diag_reads :: "nat \<Rightarrow> nat \<Rightarrow> int \<Rightarrow> nat list" where
  "diag_reads sYUY2Diag srcSize width =
     (if sYUY2Diag + 1 \<le> 5
      then [0, 1, 2, 3, 4, 5, 6, 7] @
           (if srcSize \<ge> nat width * 4
            then stride_test_reads srcSize [512, 1024, 2048, nat (width * 2)]
            else [])
      else [])"

text \<open>
  What a call leaves behind: the destination buffer (\<open>None\<close> is the null pointer), the
  source offsets read, the static counter and the global tables.
\<close>

text \<open>\<open>if (!gYuvRgbTables.initialized) gYuvRgbTables.Initialize();\<close>\<close>

definition ready_tables :: "yuv_rgb_lookup_tables \<Rightarrow> yuv_rgb_lookup_tables" where
  "ready_tables tabs = (if \<not> initialized tabs then Initialize tabs else tabs)"

record conv_result =
  res_dst :: "mem option"
  res_reads :: "nat list"
  res_sYUY2Diag :: nat
  res_tables :: yuv_rgb_lookup_tables

definition ConvertYUY2toRGB32 ::
  "yuv_rgb_lookup_tables \<Rightarrow> nat \<Rightarrow> mem option \<Rightarrow> mem option \<Rightarrow> nat \<Rightarrow> int \<Rightarrow> int \<Rightarrow> conv_result" where
  "ConvertYUY2toRGB32 tabs sYUY2Diag dst src srcSize width height =
     (case (dst, src) of
        (Some d, Some s) \<Rightarrow>
          (if width \<le> 0 \<or> height \<le> 0
           then \<lparr> res_dst = dst, res_reads = [], res_sYUY2Diag = sYUY2Diag, res_tables = tabs \<rparr>
           else (let t = ready_tables tabs;
                     c0 = \<lparr> conv_dst = d, conv_reads = diag_reads sYUY2Diag srcSize width \<rparr>;
                     c = convert_rows t s srcSize c0 0 (nat width) (nat height)
                 in \<lparr> res_dst = Some (conv_dst c), res_reads = conv_reads c,
                      res_sYUY2Diag = sYUY2Diag + 1, res_tables = t \<rparr>))
      | _ \<Rightarrow> \<lparr> res_dst = dst, res_reads = [], res_sYUY2Diag = sYUY2Diag, res_tables = tabs \<rparr>)"

subsection \<open>Predicates used to state the properties of the conversion\<close>

definition tables_wf :: "yuv_rgb_lookup_tables \<Rightarrow> bool" where
  "tables_wf t = (t = gYuvRgbTables \<or> t = Initialize gYuvRgbTables)"

definition bt601 :: "int \<Rightarrow> int \<Rightarrow> int \<Rightarrow> u8 list" where
  "bt601 y u v =
     [clamp255 ((298 * (y - 16) + 516 * (u - 128) + 128) div 256),
      clamp255 ((298 * (y - 16) - 100 * (u - 128) - 208 * (v - 128) + 128) div 256),
      clamp255 ((298 * (y - 16) + 409 * (v - 128) + 128) div 256),
      255]"

definition pixels_ok :: "(nat \<Rightarrow> u8 \<Rightarrow> bool) \<Rightarrow> mem \<Rightarrow> nat \<Rightarrow> bool" where
  "pixels_ok Q m n = (\<forall>i<n. Q (i mod 4) (m i))"

definition mp_ok :: "(nat \<Rightarrow> u8 \<Rightarrow> bool) \<Rightarrow> yuv_rgb_lookup_tables \<Rightarrow> mem \<Rightarrow> nat \<Rightarrow> bool" where
  "mp_ok Q t src sp =
     (\<forall>k<8. Q (k mod 4) (convert_macropixel t (src sp) (src (sp + 1)) (src (sp + 2)) (src (sp + 3)) ! k))"

definition whitePattern :: "u8 list" where
  "whitePattern = [235, 128, 235, 128]"

definition yuy2_pattern_frame :: "u8 list \<Rightarrow> mem \<Rightarrow> nat \<Rightarrow> bool" where
  "yuy2_pattern_frame pat src srcSize = (\<forall>i < srcSize. src i = pat ! (i mod 4))"

section \<open>Probe and commit (UVCCamDevice::_ProbeCommitFormat)\<close>

text \<open>
  The probe/commit control block \<open>usb_video_probe_and_commit_controls\<close> of the system
  headers, with the fields of the UVC 1.1 layout.
\<close>

record probe_controls =
  hint :: "16 word"
  format_index :: "8 word"
  frame_index :: "8 word"
  frame_interval :: "32 word"
  key_frame_rate :: "16 word"
  p_frame_rate :: "16 word"
  comp_quality :: "16 word"
  comp_window_size :: "16 word"
  delay :: "16 word"
  max_video_frame_size :: "32 word"
  max_payload_transfer_size :: "32 word"
  clock_frequency :: "32 word"
  framing_info :: "8 word"
  prefered_version :: "8 word"
  min_version :: "8 word"
  max_version :: "8 word"

text \<open>The block after \<open>memset(&request, 0, sizeof(request))\<close>.\<close>

definition zero_controls :: probe_controls where
  "zero_controls =
     \<lparr> hint = 0, format_index = 0, frame_index = 0, frame_interval = 0, key_frame_rate = 0,
       p_frame_rate = 0, comp_quality = 0, comp_window_size = 0, delay = 0,
       max_video_frame_size = 0, max_payload_transfer_size = 0, clock_frequency = 0,
       framing_info = 0, prefered_version = 0, min_version = 0, max_version = 0 \<rparr>"

text \<open>
  The three control transfers of the exchange, by request and selector. The camera is
  any device: a state of type \<open>'dev\<close> and a function \<open>ControlTransfer\<close> that, for a
  transfer of \<open>length\<close> bytes with the given data buffer, returns the number of bytes
  transferred (an error code of the transport is a number different from every length),
  the buffer afterwards and the next state of the device.
\<close>

datatype control_request = SET_CUR_PROBE | GET_CUR_PROBE | SET_CUR_COMMIT

type_synonym 'dev control_transfer =
  "'dev \<Rightarrow> control_request \<Rightarrow> nat \<Rightarrow> probe_controls \<Rightarrow> nat \<times> probe_controls \<times> 'dev"

text \<open>
  The members of \<open>UVCCamDevice\<close> the function uses. \<open>fDevice\<close> is \<open>None\<close> for the null
  pointer; \<open>version\<close> is \<open>fHeaderDescriptor->version\<close>. \<open>control_log\<close> is not a member: it
  records each transfer that was sent with its data, in order, so that the exchange can
  be read off the result.
\<close>

record 'dev uvc_negotiation =
  fDevice :: "'dev option"
  version :: nat
  fIsMJPEG :: bool
  fMJPEGFormatIndex :: "8 word"
  fMJPEGFrameIndex :: "8 word"
  fUncompressedFormatIndex :: "8 word"
  fUncompressedFrameIndex :: "8 word"
  fMaxVideoFrameSize :: "32 word"
  fMaxPayloadTransferSize :: "32 word"
  control_log :: "(control_request \<times> probe_controls) list"

text \<open>
  The request block. The frame interval is the device's default for the frame, adapted
  to the bandwidth for YUY2 with floating-point arithmetic; it is taken as given here.
\<close>

definition probe_request :: "'dev uvc_negotiation \<Rightarrow> 32 word \<Rightarrow> probe_controls" where
  "probe_request cam frameInterval =
     zero_controls\<lparr> hint := 1, frame_interval := frameInterval,
       format_index := (if fIsMJPEG cam then fMJPEGFormatIndex cam else fUncompressedFormatIndex cam),
       frame_index := (if fIsMJPEG cam then fMJPEGFrameIndex cam else fUncompressedFrameIndex cam) \<rparr>"

definition ProbeCommitFormat ::
  "'dev control_transfer \<Rightarrow> 'dev uvc_negotiation \<Rightarrow> 32 word \<Rightarrow> status_t \<times> 'dev uvc_negotiation" where
  "ProbeCommitFormat ControlTransfer cam frameInterval =
     (case fDevice cam of
        None \<Rightarrow> (B_ERROR, cam)
      | Some dev \<Rightarrow>
          (let request = probe_request cam frameInterval;
               len = (if version cam > 0x100 then 34 else 26);
               (actualLength1, buf1, dev1) = ControlTransfer dev SET_CUR_PROBE len request;
               cam1 = cam\<lparr>fDevice := Some dev1,
                          control_log := control_log cam @ [(SET_CUR_PROBE, request)]\<rparr>
           in if actualLength1 \<noteq> len then (B_ERROR, cam1)
              else (let (actualLength2, response, dev2) =
                          ControlTransfer dev1 GET_CUR_PROBE len zero_controls;
                        (actualLength3, buf3, dev3) =
                          ControlTransfer dev2 SET_CUR_COMMIT len response;
                        cam3 = cam1\<lparr>fDevice := Some dev3,
                                    control_log := control_log cam1
                                      @ [(GET_CUR_PROBE, zero_controls), (SET_CUR_COMMIT, response)]\<rparr>
                    in if actualLength3 \<noteq> len then (B_ERROR, cam3)
                       else (B_OK, cam3\<lparr>fMaxVideoFrameSize := max_video_frame_size response,
                                         fMaxPayloadTransferSize := max_payload_transfer_size response\<rparr>))))"

text \<open>
  A camera for examples: it accepts every transfer in full and answers the probe with
  the block held in its state.
\<close>

definition echo_camera :: "probe_controls control_transfer" where
  "echo_camera dev req len buf = (len, (if req = GET_CUR_PROBE then dev else buf), dev)"

text \<open>A negotiation state for examples: UVC 1.0, uncompressed format 1, frame 1.\<close>

definition cam0 :: "probe_controls uvc_negotiation" where
  "cam0 = \<lparr> fDevice = Some zero_controls, version = 0x100, fIsMJPEG = False,
       fMJPEGFormatIndex = 2, fMJPEGFrameIndex = 1, fUncompressedFormatIndex = 1,
       fUncompressedFrameIndex = 1, fMaxVideoFrameSize = 0, fMaxPayloadTransferSize = 0,
       control_log = [] \<rparr>"

section \<open>The isochronous transfer pump (CamDevice::DataPumpThread)\<close>

text \<open>
  A packet descriptor of a finished isochronous transfer: the length the controller
  reports (\<open>int16\<close>) and the status of the packet.
\<close>

record usb_iso_packet_descriptor =
  request_length :: nat
  actual_length :: int
  status :: status_t

text \<open>
  The members of \<open>CamDevice\<close> the loop over the descriptors uses: the transfer buffer
  and its length, the two \<open>uint32\<close> counters, and the sink \<open>fDataInput\<close>, a \<open>BDataIO\<close>
  (\<open>None\<close> for the null pointer). A sink is any state of type \<open>'sink\<close> with a \<open>Write\<close>
  function; the deframer is one.
\<close>

record 'sink pump =
  fBuffer :: mem
  fBufferLen :: nat
  fPacketSuccessCount :: "32 word"
  fPacketErrorCount :: "32 word"
  fDataInput :: "'sink option"

text \<open>The bytes \<open>&fBuffer[packetOffset]\<close> of length \<open>actual_length\<close>.\<close>

definition buffer_slice :: "mem \<Rightarrow> nat \<Rightarrow> nat \<Rightarrow> u8 list" where
  "buffer_slice m off len = map m [off..<off + len]"

text \<open>
  The body of \<open>for (int i = 0; i < numPacketDescriptors; i++)\<close> for one \<open>i\<close>. The loop
  stands under \<open>if (fDataInput)\<close>, so the sink is there when the body runs.
\<close>

definition process_descriptor ::
  "('sink \<Rightarrow> u8 list \<Rightarrow> 'sink) \<Rightarrow> nat \<Rightarrow> usb_iso_packet_descriptor list \<Rightarrow> nat
     \<Rightarrow> 'sink pump \<Rightarrow> 'sink pump" where
  "process_descriptor sink_write slotSize packetDescriptors i p =
     (let packetOffset = i * slotSize
      in if status (packetDescriptors ! i) \<noteq> B_OK
         then p\<lparr>fPacketErrorCount := fPacketErrorCount p + 1\<rparr>
         else (let actual = actual_length (packetDescriptors ! i)
               in if actual > 0 \<and> packetOffset + nat actual \<le> fBufferLen p
                  then (case fDataInput p of
                          None \<Rightarrow> p
                        | Some s \<Rightarrow>
                            p\<lparr>fDataInput :=
                                Some (sink_write s (buffer_slice (fBuffer p) packetOffset (nat actual))),
                              fPacketSuccessCount := fPacketSuccessCount p + 1\<rparr>)
                  else p))"

text \<open>
  What the pump does with the descriptors of one finished transfer: nothing when no
  sink is connected, else the loop with \<open>slotSize = fBufferLen / numPacketDescriptors\<close>.
  The array holds 32 descriptors and \<open>numPacketDescriptors\<close> is between 2 and 32.
\<close>

definition process_transfer ::
  "('sink \<Rightarrow> u8 list \<Rightarrow> 'sink) \<Rightarrow> usb_iso_packet_descriptor list \<Rightarrow> nat \<Rightarrow> 'sink pump \<Rightarrow> 'sink pump" where
  "process_transfer sink_write packetDescriptors numPacketDescriptors p =
     (case fDataInput p of
        None \<Rightarrow> p
      | Some s0 \<Rightarrow>
          (let slotSize = fBufferLen p div numPacketDescriptors
           in fold (process_descriptor sink_write slotSize packetDescriptors)
                [0..<numPacketDescriptors] p))"

text \<open>
  The descriptors that are forwarded, and those that failed; and the packet count the
  thread computes from the buffer before its loop.
\<close>

definition forwarded :: "nat \<Rightarrow> nat \<Rightarrow> usb_iso_packet_descriptor list \<Rightarrow> nat \<Rightarrow> bool" where
  "forwarded bufferLen slotSize packetDescriptors i =
     (status (packetDescriptors ! i) = B_OK \<and> actual_length (packetDescriptors ! i) > 0
      \<and> i * slotSize + nat (actual_length (packetDescriptors ! i)) \<le> bufferLen)"

definition failed :: "usb_iso_packet_descriptor list \<Rightarrow> nat \<Rightarrow> bool" where
  "failed packetDescriptors i = (status (packetDescriptors ! i) \<noteq> B_OK)"

definition num_packet_descriptors :: "nat \<Rightarrow> nat \<Rightarrow> nat" where
  "num_packet_descriptors bufferLen isoMaxPacketSize =
     (let packetSize = (if isoMaxPacketSize > 0 then isoMaxPacketSize else 256);
          n = bufferLen div packetSize;
          n1 = (if n > 32 then 32 else n)
      in if n1 < 2 then 2 else n1)"

text \<open>A sink for examples: it keeps the list of the blocks written to it.\<close>

definition log_write :: "u8 list list \<Rightarrow> u8 list \<Rightarrow> u8 list list" where
  "log_write blocks bs = blocks @ [bs]"

text \<open>
  A pump for examples: a transfer buffer of 16 bytes for 4 packets of 4 bytes, byte \<open>i\<close>
  holding the value \<open>i\<close>, both counters at 0, and the logging sink connected.
\<close>

definition pump0 :: "u8 list list pump" where
  "pump0 = \<lparr> fBuffer = (\<lambda>i. of_nat i), fBufferLen = 16, fPacketSuccessCount = 0,
       fPacketErrorCount = 0, fDataInput = Some [] \<rparr>"

section \<open>Alternate selection (UVCCamDevice::_SelectBestAlternate)\<close>

text \<open>
  An endpoint of an alternate setting, as the USB kit presents it, and the streaming
  interface as the list of its alternates, each the list of its endpoints.
\<close>

record usb_endpoint =
  IsIsochronous :: bool
  IsInput :: bool
  MaxPacketSize :: "16 word"

text \<open>
  \<open>_ShouldUseHighBandwidth\<close>: the two environment variables (\<open>None\<close> when unset), then
  the result of earlier attempts.
\<close>

definition ShouldUseHighBandwidth :: "string option \<Rightarrow> string option \<Rightarrow> bool \<Rightarrow> bool \<Rightarrow> bool" where
  "ShouldUseHighBandwidth disableHighBW forceHighBW highBandwidthTested highBandwidthWorks =
     (if disableHighBW = Some ''1'' \<or> disableHighBW = Some ''yes'' then False
      else if forceHighBW = Some ''1'' \<or> forceHighBW = Some ''yes'' then True
      else if highBandwidthTested \<and> \<not> highBandwidthWorks then False
      else True)"

text \<open>The decoding of \<open>wMaxPacketSize\<close>, in \<open>uint32\<close> arithmetic.\<close>

definition basePacketSize :: "16 word \<Rightarrow> 32 word" where
  "basePacketSize raw = ucast raw AND 0x7FF"

definition transactions :: "16 word \<Rightarrow> 32 word" where
  "transactions raw = (drop_bit 11 (ucast raw :: 32 word) AND 0x3) + 1"

definition effectiveBandwidth :: "bool \<Rightarrow> 16 word \<Rightarrow> 32 word" where
  "effectiveBandwidth allowHighBandwidth raw =
     (if transactions raw > 1 \<and> allowHighBandwidth
      then basePacketSize raw * transactions raw
      else basePacketSize raw)"

text \<open>
  The two nested loops. The triple is \<open>(bestBandwidth, alternateIndex, endpointIndex)\<close>;
  \<open>i\<close> and \<open>j\<close> are the loop indices.
\<close>

fun scan_endpoints ::
  "bool \<Rightarrow> nat \<Rightarrow> usb_endpoint list \<Rightarrow> nat \<Rightarrow> 32 word \<times> nat \<times> nat \<Rightarrow> 32 word \<times> nat \<times> nat" where
  "scan_endpoints allow i [] j best = best"
| "scan_endpoints allow i (ep # eps) j (bestBandwidth, alternateIndex, endpointIndex) =
     (if \<not> IsIsochronous ep \<or> \<not> IsInput ep
      then scan_endpoints allow i eps (j + 1) (bestBandwidth, alternateIndex, endpointIndex)
      else if transactions (MaxPacketSize ep) > 1 \<and> \<not> allow
      then scan_endpoints allow i eps (j + 1) (bestBandwidth, alternateIndex, endpointIndex)
      else if effectiveBandwidth allow (MaxPacketSize ep) > bestBandwidth
      then scan_endpoints allow i eps (j + 1) (effectiveBandwidth allow (MaxPacketSize ep), i, j)
      else scan_endpoints allow i eps (j + 1) (bestBandwidth, alternateIndex, endpointIndex))"

fun scan_alternates ::
  "bool \<Rightarrow> usb_endpoint list list \<Rightarrow> nat \<Rightarrow> 32 word \<times> nat \<times> nat \<Rightarrow> 32 word \<times> nat \<times> nat" where
  "scan_alternates allow [] i best = best"
| "scan_alternates allow (alt # alts) i best =
     scan_alternates allow alts (i + 1) (scan_endpoints allow i alt 0 best)"

text \<open>
  The members the function reads and writes, and what its surroundings answer: the
  streaming interface (\<open>None\<close> when \<open>InterfaceAt\<close> returns null), the two environment
  variables, the result of \<open>SetAlternate\<close>, whether the interface is still there
  afterwards, and whether \<open>malloc\<close> succeeds. \<open>fBufferAllocated\<close> says that \<open>fBuffer\<close> is not null. The function ends by
  noting whether the chosen endpoint is a high-bandwidth one; that is left out.
\<close>

record uvc_transport =
  hasDevice :: bool
  streaming :: "usb_endpoint list list option"
  envDisableHighBandwidth :: "string option"
  envForceHighBandwidth :: "string option"
  fHighBandwidthTested :: bool
  fHighBandwidthWorks :: bool
  SetAlternate :: "nat \<Rightarrow> status_t"
  streamingAfterSetAlternate :: bool
  mallocSucceeds :: bool
  negotiatedMaxPayloadTransferSize :: "32 word"
  fCurrentVideoAlternate :: nat
  fIsoInEndpoint :: "nat option"
  fIsoMaxPacketSize :: "32 word"
  fBufferAllocated :: bool
  fTransferBufferLen :: nat

text \<open>\<open>bool allowHighBandwidth = _ShouldUseHighBandwidth()\<close>, the same for every endpoint.\<close>

definition allowHighBandwidth :: "uvc_transport \<Rightarrow> bool" where
  "allowHighBandwidth t =
     ShouldUseHighBandwidth (envDisableHighBandwidth t) (envForceHighBandwidth t)
       (fHighBandwidthTested t) (fHighBandwidthWorks t)"

definition kInitialPackets :: nat where
  "kInitialPackets = 32"

definition SelectBestAlternate :: "uvc_transport \<Rightarrow> status_t \<times> uvc_transport" where
  "SelectBestAlternate t =
     (if \<not> hasDevice t then (B_ERROR, t)
      else case streaming t of
        None \<Rightarrow> (B_BAD_INDEX, t)
      | Some alternates \<Rightarrow>
          (let requiredBandwidth =
                 (if negotiatedMaxPayloadTransferSize t > 0 then negotiatedMaxPayloadTransferSize t else 0);
               (bestBandwidth, alternateIndex, endpointIndex) =
                 scan_alternates (allowHighBandwidth t) alternates 0 (0, 0, 0)
           in if bestBandwidth = 0 then (B_ERROR, t)
              else if fCurrentVideoAlternate t \<noteq> alternateIndex
                      \<and> SetAlternate t alternateIndex \<noteq> B_OK
              then (B_ERROR, t)
              else (let t1 = (if fCurrentVideoAlternate t \<noteq> alternateIndex
                              then t\<lparr>fCurrentVideoAlternate := alternateIndex\<rparr> else t)
                    in if fCurrentVideoAlternate t \<noteq> alternateIndex \<and> \<not> streamingAfterSetAlternate t
                       then (B_BAD_INDEX, t1)
                       else (let t2 = t1\<lparr>fIsoInEndpoint := Some endpointIndex,
                                          fIsoMaxPacketSize := bestBandwidth\<rparr>;
                                 requiredBufferSize = unat (bestBandwidth * of_nat kInitialPackets)
                             in if requiredBufferSize \<noteq> fTransferBufferLen t2 \<or> \<not> fBufferAllocated t2
                                then (if mallocSucceeds t2
                                      then (B_OK, t2\<lparr>fBufferAllocated := True,
                                                      fTransferBufferLen := requiredBufferSize\<rparr>)
                                      else (B_NO_MEMORY, t2\<lparr>fBufferAllocated := False\<rparr>))
                                else (B_OK, t2)))))"

text \<open>The endpoints the scan considers.\<close>

definition eligible :: "bool \<Rightarrow> usb_endpoint \<Rightarrow> bool" where
  "eligible allow ep =
     (IsIsochronous ep \<and> IsInput ep \<and> \<not> (transactions (MaxPacketSize ep) > 1 \<and> \<not> allow))"

text \<open>
  A transport for examples: alternate 0 without endpoints, alternate 1 with an
  isochronous input endpoint of 512 bytes, alternate 2 with one of 3 x 1024 bytes; no
  environment override and high bandwidth not tried yet; a negotiated payload size of
  1024 bytes; nothing selected or allocated yet.
\<close>

definition transport0 :: uvc_transport where
  "transport0 =
     \<lparr> hasDevice = True,
       streaming = Some [[],
                         [\<lparr>IsIsochronous = True, IsInput = True, MaxPacketSize = 0x0200\<rparr>],
                         [\<lparr>IsIsochronous = True, IsInput = True, MaxPacketSize = 0x1400\<rparr>]],
       envDisableHighBandwidth = None, envForceHighBandwidth = None,
       fHighBandwidthTested = False, fHighBandwidthWorks = False,
       SetAlternate = (\<lambda>i. B_OK), streamingAfterSetAlternate = True,
       mallocSucceeds = True, negotiatedMaxPayloadTransferSize = 1024,
       fCurrentVideoAlternate = 0, fIsoInEndpoint = None, fIsoMaxPacketSize = 0,
       fBufferAllocated = False, fTransferBufferLen = 0 \<rparr>"

section \<open>The audio pump and its ring buffer (UVCCamDevice::AudioPumpThread, ReadAudioData)\<close>

text \<open>
  The ring buffer members of \<open>UVCCamDevice\<close> and the counters local to the pump thread:
  this is all the state the thread has besides the transfer buffer.
\<close>

record audio_pump =
  fAudioRingBuffer :: mem
  fAudioRingSize :: nat
  fAudioRingHead :: nat
  fAudioRingTail :: nat
  consecutiveErrors :: nat
  currentBackoff :: nat
  transferCount :: nat
  errorCount :: nat

text \<open>
  The body of the copy loop for one descriptor; \<open>packetData\<close> are the bytes of the packet
  in the transfer buffer, \<open>actual_length\<close> of them. A negative \<open>int16\<close> length becomes a
  huge \<open>size_t\<close>, for which there is never space.
\<close>

definition audio_copy_packet :: "status_t \<Rightarrow> int \<Rightarrow> u8 list \<Rightarrow> audio_pump \<Rightarrow> audio_pump" where
  "audio_copy_packet st actual packetData a =
     (if st \<noteq> B_OK \<or> actual = 0 then a
      else if actual < 0 then a
      else (let packetLen = nat actual;
                head = fAudioRingHead a;
                tail = fAudioRingTail a;
                space = (if head \<ge> tail then fAudioRingSize a - head + tail - 1
                         else tail - head - 1)
            in if space < packetLen then a
               else (let firstChunk = fAudioRingSize a - head;
                         ring = (if firstChunk \<ge> packetLen
                                 then store_bytes (fAudioRingBuffer a) head (take packetLen packetData)
                                 else store_bytes
                                        (store_bytes (fAudioRingBuffer a) head (take firstChunk packetData))
                                        0 (take (packetLen - firstChunk) (drop firstChunk packetData)))
                     in a\<lparr>fAudioRingBuffer := ring,
                          fAudioRingHead := (head + packetLen) mod fAudioRingSize a\<rparr>)))"

text \<open>
  The copy loop over the 16 descriptors of a transfer, packet \<open>i\<close> at
  \<open>fAudioBuffer + i * bytesPerPacket\<close>.
\<close>

definition kPacketsPerTransfer :: nat where
  "kPacketsPerTransfer = 16"

definition audio_copy_transfer ::
  "mem \<Rightarrow> nat \<Rightarrow> usb_iso_packet_descriptor list \<Rightarrow> audio_pump \<Rightarrow> audio_pump" where
  "audio_copy_transfer fAudioBuffer bytesPerPacket packetDescs a =
     fold (\<lambda>i. audio_copy_packet (status (packetDescs ! i)) (actual_length (packetDescs ! i))
                 (buffer_slice fAudioBuffer (i * bytesPerPacket) (nat (actual_length (packetDescs ! i)))))
       [0..<kPacketsPerTransfer] a"

text \<open>
  \<open>ReadAudioData\<close> for a buffer of \<open>size\<close> bytes, once its wait for more data is over:
  the bytes read and the new state.
\<close>

definition ring_bytes :: "mem \<Rightarrow> nat \<Rightarrow> nat \<Rightarrow> nat \<Rightarrow> u8 list" where
  "ring_bytes ring ringSize start n = map (\<lambda>k. ring ((start + k) mod ringSize)) [0..<n]"

definition ReadAudioData :: "nat \<Rightarrow> audio_pump \<Rightarrow> u8 list \<times> audio_pump" where
  "ReadAudioData sz a =
     (if sz = 0 then ([], a)
      else (let head = fAudioRingHead a;
                tail = fAudioRingTail a;
                available = (if head \<ge> tail then head - tail else fAudioRingSize a - tail + head)
            in if available = 0 then ([], a)
               else (let toRead = (if available < sz then available else sz)
                     in (ring_bytes (fAudioRingBuffer a) (fAudioRingSize a) tail toRead,
                         a\<lparr>fAudioRingTail := (tail + toRead) mod fAudioRingSize a\<rparr>))))"

text \<open>The quantities of the ring discipline.\<close>

definition ring_available :: "audio_pump \<Rightarrow> nat" where
  "ring_available a = (fAudioRingHead a + fAudioRingSize a - fAudioRingTail a) mod fAudioRingSize a"

definition ring_free :: "audio_pump \<Rightarrow> nat" where
  "ring_free a = fAudioRingSize a - ring_available a - 1"

text \<open>
  The scenario S6: a ring of 8 bytes into which the producer has written the 7 bytes
  \<open>1, ..., 7\<close>, so that the head is at 7 and the tail at 0.
\<close>

definition ring_s6 :: audio_pump where
  "ring_s6 =
     \<lparr> fAudioRingBuffer = store_bytes (\<lambda>i. 0) 0 [1, 2, 3, 4, 5, 6, 7], fAudioRingSize = 8,
       fAudioRingHead = 7, fAudioRingTail = 0, consecutiveErrors = 0, currentBackoff = 1000,
       transferCount = 1, errorCount = 0 \<rparr>"

section \<open>Proofs: buffers, padding and the stages of \<open>Write\<close>\<close>

lemma length_load_bytes [simp]: "length (load_bytes m n) = n"
  by (simp add: load_bytes_def)

lemma nth_load_bytes [simp]: "i < n \<Longrightarrow> load_bytes m n ! i = m i"
  by (simp add: load_bytes_def)

lemma load_store_bytes:
  "load_bytes (store_bytes m p bs) (p + length bs) = load_bytes m p @ bs"
  by (rule nth_equalityI) (auto simp: nth_append store_bytes_def)

lemma length_pad_bytes [simp]: "length (pad_bytes n) = n"
  by (simp add: pad_bytes_def)

lemma nth_pad_bytes [simp]: "i < n \<Longrightarrow> pad_bytes n ! i = padPattern ! (i mod 4)"
  by (simp add: pad_bytes_def)

lemma length_padPattern: "length padPattern = 4"
  by (simp add: padPattern_def)

lemma pad_bytes_step:
  assumes "0 < r" "k = (if r < 4 then r else 4)"
  shows "take k padPattern @ pad_bytes (r - k) = pad_bytes r"
proof (rule nth_equalityI)
  show "length (take k padPattern @ pad_bytes (r - k)) = length (pad_bytes r)"
    using assms by (auto simp: length_padPattern)
next
  fix i assume "i < length (take k padPattern @ pad_bytes (r - k))"
  then have i: "i < r" using assms by (auto simp: length_padPattern split: if_splits)
  show "(take k padPattern @ pad_bytes (r - k)) ! i = pad_bytes r ! i"
  proof (cases "i < k")
    case True
    then have "i < 4" using assms by (auto split: if_splits)
    with True i show ?thesis using assms by (simp add: nth_append length_padPattern)
  next
    case False
    then have k4: "k = 4" and "4 \<le> i" using assms i by (auto split: if_splits)
    then have "(i - 4) mod 4 = i mod 4"
      by (metis le_add_diff_inverse mod_add_self1)
    with False k4 i show ?thesis by (simp add: nth_append length_padPattern)
  qed
qed

lemma pad_loop_result:
  assumes "pos \<le> expected"
  shows "snd (pad_loop m pos expected) = expected
       \<and> load_bytes (fst (pad_loop m pos expected)) expected = load_bytes m pos @ pad_bytes (expected - pos)"
  using assms
proof (induction m pos expected rule: pad_loop.induct)
  case (1 m pos expected)
  show ?case
  proof (cases "pos < expected")
    case False
    with "1.prems" have "pos = expected" by simp
    then show ?thesis by (subst (1 2) pad_loop.simps) (simp add: pad_bytes_def)
  next
    case True
    define k where "k = (if expected - pos < 4 then expected - pos else 4)"
    define m1 where "m1 = store_bytes m pos (take k padPattern)"
    have klen: "length (take k padPattern) = k" by (auto simp: k_def length_padPattern)
    have le: "pos + k \<le> expected" using True by (auto simp: k_def)
    have unf: "pad_loop m pos expected = pad_loop m1 (pos + k) expected"
      using True by (subst pad_loop.simps) (simp add: Let_def k_def m1_def)
    have ih: "snd (pad_loop m1 (pos + k) expected) = expected
       \<and> load_bytes (fst (pad_loop m1 (pos + k) expected)) expected
           = load_bytes m1 (pos + k) @ pad_bytes (expected - (pos + k))"
      using "1.IH" [OF True refl refl le [unfolded k_def]] by (simp add: k_def m1_def)
    have "load_bytes m1 (pos + k) = load_bytes m pos @ take k padPattern"
      using load_store_bytes [of m pos "take k padPattern"] klen by (simp add: m1_def)
    moreover have "take k padPattern @ pad_bytes (expected - pos - k) = pad_bytes (expected - pos)"
      using pad_bytes_step [of "expected - pos" k] True by (simp add: k_def)
    ultimately show ?thesis using ih unf by simp
  qed
qed


lemma load_store_bytes':
  "length bs = k \<Longrightarrow> load_bytes (store_bytes m p bs) (p + k) = load_bytes m p @ bs"
  using load_store_bytes [of m p bs] by simp

lemma payload_length: "\<not> header_invalid buf \<Longrightarrow> length (payload buf) = length buf - unat (buf ! 0)"
  by (simp add: payload_def)

lemma fid_stage_fixed:
  assumes "fExpectedFrameSize d > 0"
  shows "fid_stage d buf =
     (if fid_changed d buf
      then d\<lparr>fFIDChanges := fFIDChanges d + 1, fID := unat (buf ! 1 AND 0x01),
             fInputBuffer := [], fFixedBufferPos := 0, fPacketsThisFrame := 1,
             fTotalBytesThisFrame := 0\<rparr>
      else d)"
  using assms by (simp add: fid_stage_def Let_def)

lemma alloc_stage_Some:
  assumes "frame_available d" "fCurrentFrame d = None \<or> fCurrentFrame d = Some []"
  shows "\<exists>d2. alloc_stage d = Some d2 \<and> fCurrentFrame d2 = Some [] \<and> fFrames d2 = fFrames d
           \<and> fExpectedFrameSize d2 = fExpectedFrameSize d \<and> fFixedBuffer d2 = fFixedBuffer d
           \<and> fFixedBufferSize d2 = fFixedBufferSize d \<and> fFixedBufferPos d2 = fFixedBufferPos d
           \<and> fInputBuffer d2 = fInputBuffer d"
  using assms by (auto simp: alloc_stage_def frame_available_def AllocFrame_def)

lemma append_payload_fixed:
  assumes "fExpectedFrameSize d > 0" "fFixedBuffer d = Some m"
    and "fExpectedFrameSize d \<le> fFixedBufferSize d" "fFixedBufferPos d \<le> fExpectedFrameSize d"
    and "\<not> header_invalid buf"
    and "n = min (length (payload buf)) (fExpectedFrameSize d - fFixedBufferPos d)"
    and "d3 = append_payload d buf"
  shows "fFixedBufferPos d3 = fFixedBufferPos d + n"
    and "\<exists>m3. fFixedBuffer d3 = Some m3
            \<and> load_bytes m3 (fFixedBufferPos d + n) = load_bytes m (fFixedBufferPos d) @ take n (payload buf)"
    and "fFrames d3 = fFrames d" and "fCurrentFrame d3 = fCurrentFrame d"
    and "fExpectedFrameSize d3 = fExpectedFrameSize d" and "fFixedBufferSize d3 = fFixedBufferSize d"
proof -
  have pl: "length buf - unat (buf ! 0) = length (payload buf)"
    using assms(5) by (simp add: payload_length)
  have ln: "length (take n (payload buf)) = n" using assms(6) by simp
  show "fFixedBufferPos d3 = fFixedBufferPos d + n"
    using assms(1-4,6,7) unfolding append_payload_def Let_def pl
    by (auto simp: min_def)
  show "\<exists>m3. fFixedBuffer d3 = Some m3
            \<and> load_bytes m3 (fFixedBufferPos d + n) = load_bytes m (fFixedBufferPos d) @ take n (payload buf)"
    using assms(1-4,6,7) load_store_bytes' [OF ln, of m "fFixedBufferPos d"]
    unfolding append_payload_def Let_def pl
    by (auto simp: min_def)
  show "fFrames d3 = fFrames d" "fCurrentFrame d3 = fCurrentFrame d"
    "fExpectedFrameSize d3 = fExpectedFrameSize d" "fFixedBufferSize d3 = fFixedBufferSize d"
    using assms(2,7) unfolding append_payload_def Let_def by (simp_all)
qed


lemma detect_complete_eof:
  assumes "fExpectedFrameSize d > 0" "fFixedBuffer d = Some m" "fFixedBufferPos d \<le> fExpectedFrameSize d"
    and "detect_complete d True fc = (d4, c)"
  shows "c" and "fFixedBufferPos d4 = fExpectedFrameSize d"
    and "\<exists>m4. fFixedBuffer d4 = Some m4
           \<and> load_bytes m4 (fExpectedFrameSize d)
               = load_bytes m (fFixedBufferPos d) @ pad_bytes (fExpectedFrameSize d - fFixedBufferPos d)"
    and "fFrames d4 = fFrames d" and "fCurrentFrame d4 = fCurrentFrame d"
    and "fExpectedFrameSize d4 = fExpectedFrameSize d" and "fFixedBufferSize d4 = fFixedBufferSize d"
proof -
  note pr = pad_loop_result [OF assms(3), of m]
  have d4: "d4 = (if fFixedBufferPos d < fExpectedFrameSize d
                  then d\<lparr>fFixedBuffer := Some (fst (pad_loop m (fFixedBufferPos d) (fExpectedFrameSize d))),
                         fFixedBufferPos := snd (pad_loop m (fFixedBufferPos d) (fExpectedFrameSize d))\<rparr>
                  else d)" and c: "c"
    using assms(1,2,4) by (auto simp: detect_complete_def Let_def split: prod.splits if_splits)
  show "c" by (rule c)
  show "fFixedBufferPos d4 = fExpectedFrameSize d" using d4 pr assms(3) by auto
  show "\<exists>m4. fFixedBuffer d4 = Some m4
           \<and> load_bytes m4 (fExpectedFrameSize d)
               = load_bytes m (fFixedBufferPos d) @ pad_bytes (fExpectedFrameSize d - fFixedBufferPos d)"
    using d4 pr assms(2,3) by (auto simp: pad_bytes_def)
  show "fFrames d4 = fFrames d" "fCurrentFrame d4 = fCurrentFrame d"
    "fExpectedFrameSize d4 = fExpectedFrameSize d" "fFixedBufferSize d4 = fFixedBufferSize d"
    using d4 by (simp_all split: if_splits)
qed

lemma detect_complete_no_eof:
  assumes "fExpectedFrameSize d > 0"
  shows "detect_complete d False fc = (d, fFixedBufferPos d \<ge> fExpectedFrameSize d)"
  using assms by (simp add: detect_complete_def Let_def)

lemma complete_frame_fixed:
  assumes "fExpectedFrameSize d > 0" "fFixedBuffer d = Some m" "fCurrentFrame d = Some []"
  shows "fFrames (complete_frame d) = fFrames d @ [load_bytes m (fFixedBufferPos d)]"
    and "fFixedBufferPos (complete_frame d) = 0" and "fCurrentFrame (complete_frame d) = None"
    and "fExpectedFrameSize (complete_frame d) = fExpectedFrameSize d"
    and "fFixedBuffer (complete_frame d) = fFixedBuffer d"
    and "fFixedBufferSize (complete_frame d) = fFixedBufferSize d"
  using assms by (simp_all add: complete_frame_def Let_def load_bytes_def)


lemma Write_fixed_step:
  assumes inv: "yuy2_inv d" and cur: "fCurrentFrame d = None \<or> fCurrentFrame d = Some []"
    and av: "frame_available d"
    and hv: "\<not> header_invalid buf" and pl: "payload buf \<noteq> []"
    and fill: "fill = (if fid_changed d buf then 0 else fFixedBufferPos d)"
    and n: "n = min (length (payload buf)) (fExpectedFrameSize d - fill)"
  shows "fst (Write d buf) = Inr (length buf)"
    and "fExpectedFrameSize (snd (Write d buf)) = fExpectedFrameSize d"
    and "fFixedBuffer (snd (Write d buf)) \<noteq> None"
    and "fFixedBufferSize (snd (Write d buf)) = fFixedBufferSize d"
    and "eof_flag buf \<or> fill + n = fExpectedFrameSize d \<Longrightarrow>
           fFrames (snd (Write d buf)) =
             fFrames d @ [fixed_bytes d fill @ take n (payload buf) @ pad_bytes (fExpectedFrameSize d - (fill + n))]
           \<and> fFixedBufferPos (snd (Write d buf)) = 0 \<and> fCurrentFrame (snd (Write d buf)) = None"
    and "\<not> (eof_flag buf \<or> fill + n = fExpectedFrameSize d) \<Longrightarrow>
           fFrames (snd (Write d buf)) = fFrames d
           \<and> fFixedBufferPos (snd (Write d buf)) = fill + n
           \<and> fixed_bytes (snd (Write d buf)) (fill + n) = fixed_bytes d fill @ take n (payload buf)
           \<and> fCurrentFrame (snd (Write d buf)) = Some []"
proof -
  define E where "E = fExpectedFrameSize d"
  obtain m where m: "fFixedBuffer d = Some m" using inv by (auto simp: yuy2_inv_def)
  have E0: "0 < E" and Esz: "E \<le> fFixedBufferSize d" and posE: "fFixedBufferPos d \<le> E"
    using inv by (auto simp: yuy2_inv_def E_def)
  define d0 where "d0 = d\<lparr>fPacketsThisFrame := fPacketsThisFrame d + 1\<rparr>"
  define d1 where "d1 = fid_stage d0 buf"
  have fc0: "fid_changed d0 buf = fid_changed d buf" by (simp add: d0_def fid_changed_def)
  have d1: "fExpectedFrameSize d1 = E" "fFixedBuffer d1 = Some m" "fFixedBufferSize d1 = fFixedBufferSize d"
    "fFixedBufferPos d1 = fill" "fCurrentFrame d1 = fCurrentFrame d" "fFrames d1 = fFrames d"
    using E0 m fill fc0 unfolding d1_def
    by (simp_all add: fid_stage_fixed d0_def E_def)
  have "frame_available d1" using av d1 by (simp add: frame_available_def)
  from alloc_stage_Some [OF this] cur d1
  obtain d2 where d2: "alloc_stage d1 = Some d2" "fCurrentFrame d2 = Some []" "fFrames d2 = fFrames d"
    "fExpectedFrameSize d2 = E" "fFixedBuffer d2 = Some m" "fFixedBufferSize d2 = fFixedBufferSize d"
    "fFixedBufferPos d2 = fill"
    by auto
  define d3 where "d3 = append_payload d2 buf"
  have fillE: "fill \<le> E" using posE fill by simp
  have n2: "n = min (length (payload buf)) (fExpectedFrameSize d2 - fFixedBufferPos d2)"
    using n d2 by (simp add: E_def)
  note ap = append_payload_fixed [OF _ d2(5) _ _ hv n2 d3_def]
  have d3: "fFixedBufferPos d3 = fill + n" "fFrames d3 = fFrames d" "fCurrentFrame d3 = Some []"
    "fExpectedFrameSize d3 = E" "fFixedBufferSize d3 = fFixedBufferSize d"
    using ap(1,3,4,5,6) d2 E0 Esz fillE by simp_all
  obtain m3 where m3: "fFixedBuffer d3 = Some m3"
    "load_bytes m3 (fill + n) = load_bytes m fill @ take n (payload buf)"
    using ap(2) d2 E0 Esz fillE by auto
  have nE: "fill + n \<le> E" using n fillE by (simp add: E_def)
  obtain d4 c where dc: "detect_complete d3 (eof_flag buf) (fid_changed d0 buf) = (d4, c)"
    by (cases "detect_complete d3 (eof_flag buf) (fid_changed d0 buf)")
  have nz: "length buf - unat (buf ! 0) \<noteq> 0" using pl hv by (simp add: payload_def header_invalid_def)
  have W: "Write d buf = (Inr (length buf), if c then complete_frame d4 else d4)"
    using hv nz d2(1) dc [unfolded d3_def] unfolding Write_def Let_def d0_def [symmetric] d1_def [symmetric]
    by simp
  have fb: "fixed_bytes d fill = load_bytes m fill" using m by (simp add: fixed_bytes_def)
  have common: "fExpectedFrameSize d4 = E \<and> fFixedBuffer d4 \<noteq> None \<and> fFixedBufferSize d4 = fFixedBufferSize d
      \<and> fCurrentFrame d4 = Some [] \<and> fFrames d4 = fFrames d
      \<and> (c \<longleftrightarrow> eof_flag buf \<or> fill + n = E)
      \<and> (c \<longrightarrow> fFixedBufferPos d4 = E \<and> (\<exists>m4. fFixedBuffer d4 = Some m4 \<and>
             load_bytes m4 E = load_bytes m fill @ take n (payload buf) @ pad_bytes (E - (fill + n))))
      \<and> (\<not> c \<longrightarrow> d4 = d3)"
  proof (cases "eof_flag buf")
    case True
    have dc': "detect_complete d3 True (fid_changed d0 buf) = (d4, c)" using dc True by simp
    have p3: "fFixedBufferPos d3 \<le> fExpectedFrameSize d3" using d3 nE by simp
    have e3: "0 < fExpectedFrameSize d3" using d3 E0 by simp
    note de = detect_complete_eof [OF e3 m3(1) p3 dc']
    from de(3) obtain m4 where "fFixedBuffer d4 = Some m4"
      "load_bytes m4 E = load_bytes m3 (fill + n) @ pad_bytes (E - (fill + n))"
      using d3 by auto
    then show ?thesis using de(1,2,4,5,6,7) d3 m3 True by auto
  next
    case False
    have e3: "0 < fExpectedFrameSize d3" using d3 E0 by simp
    have "d4 = d3" and c: "c \<longleftrightarrow> E \<le> fill + n"
      using detect_complete_no_eof [OF e3, of "fid_changed d0 buf"] dc False d3 by auto
    moreover have "E \<le> fill + n \<longleftrightarrow> fill + n = E" using nE by auto
    moreover have "fill + n = E \<Longrightarrow> pad_bytes (E - (fill + n)) = []" by (simp add: pad_bytes_def)
    ultimately show ?thesis using d3 m3 False by auto
  qed
  show "fst (Write d buf) = Inr (length buf)" using W by simp
  have cf: "c \<Longrightarrow> 0 < fExpectedFrameSize d4" using common E0 by simp
  show "fExpectedFrameSize (snd (Write d buf)) = fExpectedFrameSize d"
    using W common complete_frame_fixed(4) [of d4] cf by (auto simp: E_def)
  show "fFixedBuffer (snd (Write d buf)) \<noteq> None"
    using W common complete_frame_fixed(5) [of d4] cf by auto
  show "fFixedBufferSize (snd (Write d buf)) = fFixedBufferSize d"
    using W common complete_frame_fixed(6) [of d4] cf by auto
  show "fFrames (snd (Write d buf)) =
             fFrames d @ [fixed_bytes d fill @ take n (payload buf) @ pad_bytes (fExpectedFrameSize d - (fill + n))]
           \<and> fFixedBufferPos (snd (Write d buf)) = 0 \<and> fCurrentFrame (snd (Write d buf)) = None"
    if "eof_flag buf \<or> fill + n = fExpectedFrameSize d"
  proof -
    from that common have c: "c" by (simp add: E_def)
    with common obtain m4 where m4: "fFixedBuffer d4 = Some m4" "fFixedBufferPos d4 = E"
      "load_bytes m4 E = load_bytes m fill @ take n (payload buf) @ pad_bytes (E - (fill + n))"
      by auto
    have "0 < fExpectedFrameSize d4" "fCurrentFrame d4 = Some []" using common E0 by simp_all
    from complete_frame_fixed(1,2,3) [OF this(1) m4(1) this(2)] W c m4 common fb
    show ?thesis by (simp add: E_def)
  qed
  show "fFrames (snd (Write d buf)) = fFrames d
           \<and> fFixedBufferPos (snd (Write d buf)) = fill + n
           \<and> fixed_bytes (snd (Write d buf)) (fill + n) = fixed_bytes d fill @ take n (payload buf)
           \<and> fCurrentFrame (snd (Write d buf)) = Some []"
    if "\<not> (eof_flag buf \<or> fill + n = fExpectedFrameSize d)"
  proof -
    from that common have c: "\<not> c" by (simp add: E_def)
    with common have "d4 = d3" by simp
    with W c d3 m3 fb show ?thesis by (simp add: fixed_bytes_def)
  qed
qed

lemma fid_stage_plain:
  assumes "fExpectedFrameSize d > 0 \<or> fInputBuffer d = []"
  shows "fid_stage d buf =
     (if fid_changed d buf
      then d\<lparr>fFIDChanges := fFIDChanges d + 1, fID := unat (buf ! 1 AND 0x01),
             fInputBuffer := [], fFixedBufferPos := 0, fPacketsThisFrame := 1,
             fTotalBytesThisFrame := 0\<rparr>
      else d)"
  using assms by (auto simp: fid_stage_def Let_def)

lemma append_payload_frames:
  "fFrames (append_payload d buf) = fFrames d \<and> fCurrentFrame (append_payload d buf) = fCurrentFrame d
   \<and> fInputBuffer (append_payload d buf) = fInputBuffer d"
  by (simp add: append_payload_def Let_def split: option.splits)

lemma detect_complete_frames:
  "fFrames (fst (detect_complete d e f)) = fFrames d
   \<and> fCurrentFrame (fst (detect_complete d e f)) = fCurrentFrame d
   \<and> fInputBuffer (fst (detect_complete d e f)) = fInputBuffer d"
  by (simp add: detect_complete_def Let_def split: option.splits prod.splits)

lemma complete_frame_queue:
  assumes "fCurrentFrame d \<noteq> None"
  shows "length (fFrames (complete_frame d)) = length (fFrames d) + 1
    \<and> fCurrentFrame (complete_frame d) = None \<and> fInputBuffer (complete_frame d) = []"
  using assms by (auto simp: complete_frame_def Let_def split: option.splits)

lemma Write_queue_full:
  assumes "fExpectedFrameSize d > 0 \<or> fInputBuffer d = []"
    and "fCurrentFrame d = None" and "MAXFRAMEBUF \<le> length (fFrames d)"
    and "\<not> header_invalid buf" and "payload buf \<noteq> []"
  shows "Write d buf =
     (Inr (length buf),
      (fid_stage (d\<lparr>fPacketsThisFrame := fPacketsThisFrame d + 1\<rparr>) buf)
        \<lparr>fQueueOverflows := fQueueOverflows d + 1\<rparr>)"
    and "fFrames (snd (Write d buf)) = fFrames d" and "fCurrentFrame (snd (Write d buf)) = None"
    and "fInputBuffer (snd (Write d buf)) = (if fid_changed d buf then [] else fInputBuffer d)"
    and "fQueueOverflows (snd (Write d buf)) = fQueueOverflows d + 1"
    and "fFramePool (snd (Write d buf)) = fFramePool d"
    and "fPoolHits (snd (Write d buf)) = fPoolHits d" and "fPoolMisses (snd (Write d buf)) = fPoolMisses d"
    and "fFramesCompleted (snd (Write d buf)) = fFramesCompleted d"
    and "fFrameSem (snd (Write d buf)) = fFrameSem d"
    and "fExpectedFrameSize (snd (Write d buf)) = fExpectedFrameSize d"
    and "fFixedBuffer (snd (Write d buf)) = fFixedBuffer d"
    and "fFixedBufferSize (snd (Write d buf)) = fFixedBufferSize d"
    and "fFixedBufferPos (snd (Write d buf)) = (if fid_changed d buf then 0 else fFixedBufferPos d)"
proof -
  define d0 where "d0 = d\<lparr>fPacketsThisFrame := fPacketsThisFrame d + 1\<rparr>"
  have a0: "fExpectedFrameSize d0 > 0 \<or> fInputBuffer d0 = []" using assms(1) by (simp add: d0_def)
  have fc0: "fid_changed d0 buf = fid_changed d buf" by (simp add: d0_def fid_changed_def)
  note fs = fid_stage_plain [OF a0, of buf]
  have f1: "fCurrentFrame (fid_stage d0 buf) = None" "fFrames (fid_stage d0 buf) = fFrames d"
    "fQueueOverflows (fid_stage d0 buf) = fQueueOverflows d"
    unfolding fs using assms(2) by (simp_all add: d0_def)
  have al: "alloc_stage (fid_stage d0 buf) = None"
    using f1 assms(3) by (simp add: alloc_stage_def)
  have nz: "length buf - unat (buf ! 0) \<noteq> 0" using assms(4,5) by (simp add: payload_def header_invalid_def)
  show W: "Write d buf =
     (Inr (length buf),
      (fid_stage (d\<lparr>fPacketsThisFrame := fPacketsThisFrame d + 1\<rparr>) buf)
        \<lparr>fQueueOverflows := fQueueOverflows d + 1\<rparr>)"
    using assms(4) nz al f1(3) unfolding Write_def Let_def d0_def [symmetric] by simp
  have W': "snd (Write d buf) = (fid_stage d0 buf)\<lparr>fQueueOverflows := fQueueOverflows d + 1\<rparr>"
    using W by (simp add: d0_def)
  show "fFrames (snd (Write d buf)) = fFrames d" "fCurrentFrame (snd (Write d buf)) = None"
    "fQueueOverflows (snd (Write d buf)) = fQueueOverflows d + 1"
    using f1 by (simp_all add: W')
  show "fInputBuffer (snd (Write d buf)) = (if fid_changed d buf then [] else fInputBuffer d)"
    unfolding W' fs fc0 by (simp add: d0_def)
  show "fFramePool (snd (Write d buf)) = fFramePool d"
    "fPoolHits (snd (Write d buf)) = fPoolHits d" "fPoolMisses (snd (Write d buf)) = fPoolMisses d"
    "fFramesCompleted (snd (Write d buf)) = fFramesCompleted d"
    "fFrameSem (snd (Write d buf)) = fFrameSem d"
    "fExpectedFrameSize (snd (Write d buf)) = fExpectedFrameSize d"
    "fFixedBuffer (snd (Write d buf)) = fFixedBuffer d"
    "fFixedBufferSize (snd (Write d buf)) = fFixedBufferSize d"
    "fFixedBufferPos (snd (Write d buf)) = (if fid_changed d buf then 0 else fFixedBufferPos d)"
    unfolding W' fs fc0 by (simp_all add: d0_def)
qed


lemma alloc_stage_queue:
  assumes "alloc_stage d = Some d2" "queue_inv d"
  shows "fCurrentFrame d2 \<noteq> None \<and> fFrames d2 = fFrames d \<and> length (fFrames d) < MAXFRAMEBUF
         \<and> fInputBuffer d2 = []"
  using assms by (auto simp: alloc_stage_def AllocFrame_def queue_inv_def split: if_splits)

lemma Write_queue_inv:
  assumes "queue_inv d"
  shows "queue_inv (snd (Write d buf))"
proof -
  define d0 where "d0 = d\<lparr>fPacketsThisFrame := fPacketsThisFrame d + 1\<rparr>"
  have q0: "queue_inv d0" using assms by (simp add: queue_inv_def d0_def)
  have a0: "fExpectedFrameSize d0 > 0 \<or> fInputBuffer d0 = []" using q0 by (simp add: queue_inv_def)
  define d1 where "d1 = fid_stage d0 buf"
  have q1: "queue_inv d1"
    unfolding d1_def fid_stage_plain [OF a0] using q0 by (simp add: queue_inv_def)
  show ?thesis
  proof (cases "header_invalid buf \<or> length buf - unat (buf ! 0) = 0")
    case True
    then have "snd (Write d buf) = d0 \<or> snd (Write d buf) = d0\<lparr>sHeaderErrors := sHeaderErrors d0 + 1\<rparr>"
      unfolding Write_def Let_def d0_def [symmetric] by auto
    then show ?thesis using q0 by (auto simp: queue_inv_def)
  next
    case False
    show ?thesis
    proof (cases "alloc_stage d1")
      case None
      then have "snd (Write d buf) = d1\<lparr>fQueueOverflows := fQueueOverflows d1 + 1\<rparr>"
        using False unfolding Write_def Let_def d0_def [symmetric] d1_def [symmetric] by simp
      then show ?thesis using q1 by (simp add: queue_inv_def)
    next
      case (Some d2)
      note a2 = alloc_stage_queue [OF Some q1]
      define d3 where "d3 = append_payload d2 buf"
      obtain d4 c where dc: "detect_complete d3 (eof_flag buf) (fid_changed d0 buf) = (d4, c)"
        by (cases "detect_complete d3 (eof_flag buf) (fid_changed d0 buf)")
      have d4: "fFrames d4 = fFrames d1" "fCurrentFrame d4 \<noteq> None" "fInputBuffer d4 = []"
        using detect_complete_frames [of d3 "eof_flag buf" "fid_changed d0 buf"] dc
          append_payload_frames [of d2 buf] a2 by (simp_all add: d3_def)
      have W: "snd (Write d buf) = (if c then complete_frame d4 else d4)"
        using False Some dc [unfolded d3_def]
        unfolding Write_def Let_def d0_def [symmetric] d1_def [symmetric] by simp
      show ?thesis
        using W d4 a2 complete_frame_queue [OF d4(2)] by (auto simp: queue_inv_def)
    qed
  qed
qed

lemma reachable_queue_inv: "reachable d \<Longrightarrow> queue_inv d"
proof (induction rule: reachable.induct)
  case (r_new fixed)
  show ?case by (simp add: queue_inv_def UVCDeframer_new_def MAXFRAMEBUF_def)
next
  case (r_write d buf)
  then show ?case by (simp add: Write_queue_inv)
next
  case (r_get d)
  then show ?case by (auto simp: queue_inv_def GetFrame_def split: list.splits)
next
  case (r_drop d)
  then show ?case by (auto simp: queue_inv_def DropFrame_def split: list.splits)
next
  case (r_recycle d frame)
  then show ?case by (simp add: queue_inv_def RecycleFrame_def)
next
  case (r_flush d)
  then show ?case by (simp add: queue_inv_def Flush_def CamDeframer_Flush_def MAXFRAMEBUF_def)
next
  case (r_expected d sz)
  then show ?case by (simp add: queue_inv_def SetExpectedFrameSize_def)
qed

lemma reachable_writes: "reachable d \<Longrightarrow> reachable (writes d bufs)"
  by (induction bufs arbitrary: d) (auto intro: reachable.r_write)

lemma length_fixed_bytes: "fFixedBuffer d \<noteq> None \<Longrightarrow> length (fixed_bytes d n) = n"
  by (auto simp: fixed_bytes_def)

lemma yuy2_inv_Write:
  assumes "yuy2_inv d" and cur: "fCurrentFrame d = None \<or> fCurrentFrame d = Some []"
  shows "yuy2_inv (snd (Write d buf)) \<and> fExpectedFrameSize (snd (Write d buf)) = fExpectedFrameSize d
    \<and> (fCurrentFrame (snd (Write d buf)) = None \<or> fCurrentFrame (snd (Write d buf)) = Some [])"
proof (cases "header_invalid buf \<or> length buf - unat (buf ! 0) = 0")
  case True
  define d0 where "d0 = d\<lparr>fPacketsThisFrame := fPacketsThisFrame d + 1\<rparr>"
  from True have "snd (Write d buf) = d0 \<or> snd (Write d buf) = d0\<lparr>sHeaderErrors := sHeaderErrors d0 + 1\<rparr>"
    unfolding Write_def Let_def d0_def [symmetric] by auto
  then show ?thesis using assms by (auto simp: yuy2_inv_def d0_def)
next
  case False
  then have hv: "\<not> header_invalid buf" and pl: "payload buf \<noteq> []"
    by (auto simp: payload_def header_invalid_def)
  define fill where "fill = (if fid_changed d buf then 0 else fFixedBufferPos d)"
  define n where "n = min (length (payload buf)) (fExpectedFrameSize d - fill)"
  have fillE: "fill \<le> fExpectedFrameSize d" using assms by (simp add: fill_def yuy2_inv_def)
  have fb: "fFixedBuffer d \<noteq> None" using assms by (simp add: yuy2_inv_def)
  show ?thesis
  proof (cases "frame_available d")
    case True
    note st = Write_fixed_step [OF assms True hv pl fill_def n_def]
    show ?thesis
    proof (cases "eof_flag buf \<or> fill + n = fExpectedFrameSize d")
      case True
      have "length (fixed_bytes d fill @ take n (payload buf) @ pad_bytes (fExpectedFrameSize d - (fill + n)))
              = fExpectedFrameSize d"
        using fillE fb by (simp add: length_fixed_bytes n_def)
      with st(2,3,4) st(5) [OF True] assms show ?thesis by (auto simp: yuy2_inv_def)
    next
      case False
      have "fill + n \<le> fExpectedFrameSize d" using fillE by (simp add: n_def)
      with st(2,3,4) st(6) [OF False] assms show ?thesis by (auto simp: yuy2_inv_def)
    qed
  next
    case False
    then have cur: "fCurrentFrame d = None" and full: "MAXFRAMEBUF \<le> length (fFrames d)"
      by (auto simp: frame_available_def)
    have e: "fExpectedFrameSize d > 0 \<or> fInputBuffer d = []" using assms by (simp add: yuy2_inv_def)
    note qf = Write_queue_full [OF e cur full hv pl]
    show ?thesis using assms qf(2,3,11,12,13,14) by (auto simp: yuy2_inv_def)
  qed
qed

lemma yuy2_inv_writes:
  assumes "yuy2_inv d" and "fCurrentFrame d = None \<or> fCurrentFrame d = Some []"
  shows "yuy2_inv (writes d bufs) \<and> fExpectedFrameSize (writes d bufs) = fExpectedFrameSize d
    \<and> (fCurrentFrame (writes d bufs) = None \<or> fCurrentFrame (writes d bufs) = Some [])"
  using assms
proof (induction bufs arbitrary: d)
  case Nil
  then show ?case by simp
next
  case (Cons buf bufs)
  note w = yuy2_inv_Write [OF Cons.prems, of buf]
  from w have "yuy2_inv (snd (Write d buf))"
    and "fCurrentFrame (snd (Write d buf)) = None \<or> fCurrentFrame (snd (Write d buf)) = Some []"
    by simp_all
  from Cons.IH [OF this] w show ?case by simp
qed

text \<open>
  In every state of the deframer the current frame, when there is one, has not been
  written to yet: a frame is filled only at the moment it is published.
\<close>

lemma fid_stage_current:
  assumes "fCurrentFrame d = None \<or> fCurrentFrame d = Some []"
  shows "fCurrentFrame (fid_stage d buf) = None \<or> fCurrentFrame (fid_stage d buf) = Some []"
  using assms
  by (auto simp: fid_stage_def complete_previous_mjpeg_def AllocFrame_def Let_def
           split: option.splits if_splits)

lemma alloc_stage_current:
  assumes "alloc_stage d = Some d2" "fCurrentFrame d = None \<or> fCurrentFrame d = Some []"
  shows "fCurrentFrame d2 = Some []"
  using assms by (auto simp: alloc_stage_def AllocFrame_def split: if_splits)

lemma complete_frame_current: "fCurrentFrame (complete_frame d) = None"
  by (auto simp: complete_frame_def Let_def split: option.splits)

lemma Write_current_frame:
  assumes "fCurrentFrame d = None \<or> fCurrentFrame d = Some []"
  shows "fCurrentFrame (snd (Write d buf)) = None \<or> fCurrentFrame (snd (Write d buf)) = Some []"
proof -
  define d0 where "d0 = d\<lparr>fPacketsThisFrame := fPacketsThisFrame d + 1\<rparr>"
  have c0: "fCurrentFrame d0 = None \<or> fCurrentFrame d0 = Some []" using assms by (simp add: d0_def)
  define d1 where "d1 = fid_stage d0 buf"
  have c1: "fCurrentFrame d1 = None \<or> fCurrentFrame d1 = Some []"
    unfolding d1_def by (rule fid_stage_current [OF c0])
  show ?thesis
  proof (cases "header_invalid buf \<or> length buf - unat (buf ! 0) = 0")
    case True
    then have "snd (Write d buf) = d0 \<or> snd (Write d buf) = d0\<lparr>sHeaderErrors := sHeaderErrors d0 + 1\<rparr>"
      unfolding Write_def Let_def d0_def [symmetric] by auto
    then show ?thesis using c0 by auto
  next
    case False
    show ?thesis
    proof (cases "alloc_stage d1")
      case None
      then have "snd (Write d buf) = d1\<lparr>fQueueOverflows := fQueueOverflows d1 + 1\<rparr>"
        using False unfolding Write_def Let_def d0_def [symmetric] d1_def [symmetric] by simp
      then show ?thesis using c1 by simp
    next
      case (Some d2)
      define d3 where "d3 = append_payload d2 buf"
      obtain d4 c where dc: "detect_complete d3 (eof_flag buf) (fid_changed d0 buf) = (d4, c)"
        by (cases "detect_complete d3 (eof_flag buf) (fid_changed d0 buf)")
      have d4: "fCurrentFrame d4 = Some []"
        using detect_complete_frames [of d3 "eof_flag buf" "fid_changed d0 buf"] dc
          append_payload_frames [of d2 buf] alloc_stage_current [OF Some c1] by (simp add: d3_def)
      have W: "snd (Write d buf) = (if c then complete_frame d4 else d4)"
        using False Some dc [unfolded d3_def]
        unfolding Write_def Let_def d0_def [symmetric] d1_def [symmetric] by simp
      show ?thesis using W d4 complete_frame_current [of d4] by auto
    qed
  qed
qed

lemma reachable_current_frame:
  "reachable d \<Longrightarrow> fCurrentFrame d = None \<or> fCurrentFrame d = Some []"
proof (induction rule: reachable.induct)
  case (r_new fixed)
  show ?case by (simp add: UVCDeframer_new_def)
next
  case (r_write d buf)
  then show ?case by (simp add: Write_current_frame)
next
  case (r_get d)
  then show ?case by (auto simp: GetFrame_def split: list.splits)
next
  case (r_drop d)
  then show ?case by (auto simp: DropFrame_def split: list.splits)
next
  case (r_recycle d frame)
  then show ?case by (simp add: RecycleFrame_def)
next
  case (r_flush d)
  then show ?case by (auto simp: Flush_def CamDeframer_Flush_def split: option.splits)
next
  case (r_expected d sz)
  then show ?case by (simp add: SetExpectedFrameSize_def)
qed

lemma pad_loop_nth:
  assumes "pos \<le> i" "i < expected"
  shows "fst (pad_loop m pos expected) i = padPattern ! ((i - pos) mod 4)"
proof -
  have le: "pos \<le> expected" using assms by simp
  have "fst (pad_loop m pos expected) i = load_bytes (fst (pad_loop m pos expected)) expected ! i"
    using assms(2) by simp
  also have "\<dots> = (load_bytes m pos @ pad_bytes (expected - pos)) ! i"
    using pad_loop_result [OF le, of m] by simp
  also have "\<dots> = pad_bytes (expected - pos) ! (i - pos)"
    using assms(1) by (simp add: nth_append)
  also have "\<dots> = padPattern ! ((i - pos) mod 4)"
    using assms by simp
  finally show ?thesis .
qed

lemmas deframer_eval =
  Write_def header_invalid_def eof_flag_def fid_changed_def fid_stage_def alloc_stage_def
  AllocFrame_def append_payload_def payload_def detect_complete_def complete_frame_def
  complete_previous_mjpeg_def UVCDeframer_new_def SetExpectedFrameSize_def MAXFRAMEBUF_def Let_def


lemma yuy2_inv_start:
  "0 < sz \<Longrightarrow> sz \<le> 4 * 1024 * 1024 \<Longrightarrow> yuy2_inv (SetExpectedFrameSize (UVCDeframer_new (Some m)) sz)"
  by (simp add: yuy2_inv_def SetExpectedFrameSize_def UVCDeframer_new_def)


section \<open>Proofs: fixed-size (YUY2) frame assembly\<close>

lemma pad_loop_snd: "pos \<le> expected \<Longrightarrow> snd (pad_loop m pos expected) = expected"
  using pad_loop_result [of pos expected m] by simp

lemma yuy2_write_step:
  assumes inv: "yuy2_inv d" and cur: "fCurrentFrame d = None \<or> fCurrentFrame d = Some []"
    and hv: "\<not> header_invalid buf" and pl: "payload buf \<noteq> []"
    and fill: "fill = (if fid_changed d buf then 0 else fFixedBufferPos d)"
    and n: "n = min (length (payload buf)) (fExpectedFrameSize d - fill)"
  shows "\<not> frame_available d \<Longrightarrow>
           fFrames (snd (Write d buf)) = fFrames d
           \<and> fQueueOverflows (snd (Write d buf)) = fQueueOverflows d + 1"
    and "frame_available d \<Longrightarrow> eof_flag buf \<or> fExpectedFrameSize d \<le> fill + length (payload buf) \<Longrightarrow>
           fFrames (snd (Write d buf)) =
             fFrames d @ [fixed_bytes d fill @ take n (payload buf) @ pad_bytes (fExpectedFrameSize d - (fill + n))]
           \<and> fFixedBufferPos (snd (Write d buf)) = 0"
    and "frame_available d \<Longrightarrow> \<not> (eof_flag buf \<or> fExpectedFrameSize d \<le> fill + length (payload buf)) \<Longrightarrow>
           fFrames (snd (Write d buf)) = fFrames d
           \<and> fFixedBufferPos (snd (Write d buf)) = fill + length (payload buf)
           \<and> fixed_bytes (snd (Write d buf)) (fill + length (payload buf)) = fixed_bytes d fill @ payload buf"
proof -
  have fillE: "fill \<le> fExpectedFrameSize d" using inv by (simp add: fill yuy2_inv_def)
  have iff: "fExpectedFrameSize d \<le> fill + length (payload buf) \<longleftrightarrow> fill + n = fExpectedFrameSize d"
    using fillE by (auto simp: n min_def)
  show "fFrames (snd (Write d buf)) = fFrames d
           \<and> fQueueOverflows (snd (Write d buf)) = fQueueOverflows d + 1"
    if "\<not> frame_available d"
  proof -
    from that have c: "fCurrentFrame d = None" and full: "MAXFRAMEBUF \<le> length (fFrames d)"
      by (auto simp: frame_available_def)
    have e: "fExpectedFrameSize d > 0 \<or> fInputBuffer d = []" using inv by (simp add: yuy2_inv_def)
    from Write_queue_full(2,5) [OF e c full hv pl] show ?thesis by simp
  qed
  show "fFrames (snd (Write d buf)) =
             fFrames d @ [fixed_bytes d fill @ take n (payload buf) @ pad_bytes (fExpectedFrameSize d - (fill + n))]
           \<and> fFixedBufferPos (snd (Write d buf)) = 0"
    if "frame_available d" "eof_flag buf \<or> fExpectedFrameSize d \<le> fill + length (payload buf)"
  proof -
    from that(2) have "eof_flag buf \<or> fill + n = fExpectedFrameSize d" using iff by simp
    from Write_fixed_step(5) [OF inv cur that(1) hv pl fill n this] show ?thesis by simp
  qed
  show "fFrames (snd (Write d buf)) = fFrames d
           \<and> fFixedBufferPos (snd (Write d buf)) = fill + length (payload buf)
           \<and> fixed_bytes (snd (Write d buf)) (fill + length (payload buf)) = fixed_bytes d fill @ payload buf"
    if "frame_available d" "\<not> (eof_flag buf \<or> fExpectedFrameSize d \<le> fill + length (payload buf))"
  proof -
    from that(2) have ne: "\<not> (eof_flag buf \<or> fill + n = fExpectedFrameSize d)" using iff by simp
    from that(2) have nl: "n = length (payload buf)" by (auto simp: n min_def)
    from Write_fixed_step(6) [OF inv cur that(1) hv pl fill n ne] nl show ?thesis by simp
  qed
qed

lemma yuy2_inv_flush:
  assumes "0 < sz" "sz \<le> fFixedBufferSize d" "fFixedBuffer d \<noteq> None"
  shows "yuy2_inv (Flush (SetExpectedFrameSize d sz))" "yuy2_inv (SetExpectedFrameSize (Flush d) sz)"
  using assms by (simp_all add: yuy2_inv_def Flush_def CamDeframer_Flush_def SetExpectedFrameSize_def)

text \<open>The calls of the consumer keep the fixed-size mode in working order.\<close>

lemma yuy2_inv_consumer:
  assumes "yuy2_inv d"
  shows "yuy2_inv (snd (GetFrame d))" "yuy2_inv (snd (DropFrame d))"
    "yuy2_inv (RecycleFrame d frame)" "yuy2_inv (Flush d)"
  using assms
  by (auto simp: yuy2_inv_def GetFrame_def DropFrame_def RecycleFrame_def Flush_def
        CamDeframer_Flush_def split: list.splits)

text \<open>
  An expected size above the size of the fixed buffer: the copy of a payload that would
  pass the end of the buffer is refused, so the fill stops at the size of the buffer.
\<close>

lemma Write_over_buffer:
  assumes "fFixedBuffer d \<noteq> None" "fCurrentFrame d = None \<or> fCurrentFrame d = Some []"
    and "fFrames d = []" "fID d = 0" "fFixedBufferPos d \<le> fFixedBufferSize d"
    and "fFixedBufferSize d + L < fExpectedFrameSize d" "0 < L"
    and "d' = snd (Write d (2 # 0 # replicate L 0))"
  shows "fFixedBuffer d' \<noteq> None" "fCurrentFrame d' = Some []" "fFrames d' = []" "fID d' = 0"
    "fFixedBufferSize d' = fFixedBufferSize d" "fExpectedFrameSize d' = fExpectedFrameSize d"
    "fFixedBufferPos d' = (if fFixedBufferPos d + L \<le> fFixedBufferSize d
                           then fFixedBufferPos d + L else fFixedBufferPos d)"
proof -
  define buf :: "u8 list" where "buf = 2 # 0 # replicate L 0"
  have hv: "\<not> header_invalid buf" by (simp add: buf_def header_invalid_def)
  have sz: "length buf - unat (buf ! 0) = L" by (simp add: buf_def)
  have ne: "\<not> eof_flag buf" by (simp add: buf_def eof_flag_def)
  define d0 where "d0 = d\<lparr>fPacketsThisFrame := fPacketsThisFrame d + 1\<rparr>"
  have fc: "\<not> fid_changed d0 buf" using assms(4) by (simp add: d0_def buf_def fid_changed_def)
  have d1: "fid_stage d0 buf = d0" using fc by (simp add: fid_stage_def)
  obtain m where m: "fFixedBuffer d = Some m" using assms(1) by auto
  have "\<exists>d2. alloc_stage d0 = Some d2 \<and> fCurrentFrame d2 = Some [] \<and> fFrames d2 = []
           \<and> fID d2 = 0 \<and> fExpectedFrameSize d2 = fExpectedFrameSize d \<and> fFixedBuffer d2 = Some m
           \<and> fFixedBufferSize d2 = fFixedBufferSize d \<and> fFixedBufferPos d2 = fFixedBufferPos d"
    using assms(2,3,4) m by (auto simp: alloc_stage_def AllocFrame_def d0_def MAXFRAMEBUF_def)
  then obtain d2 where d2: "alloc_stage d0 = Some d2" "fCurrentFrame d2 = Some []" "fFrames d2 = []"
    "fID d2 = 0" "fExpectedFrameSize d2 = fExpectedFrameSize d" "fFixedBuffer d2 = Some m"
    "fFixedBufferSize d2 = fFixedBufferSize d" "fFixedBufferPos d2 = fFixedBufferPos d"
    by blast
  define d3 where "d3 = append_payload d2 buf"
  have E: "0 < fExpectedFrameSize d2" "fFixedBufferPos d2 < fExpectedFrameSize d2"
    "\<not> fExpectedFrameSize d2 - fFixedBufferPos d2 < L"
    using assms(5,6,7) d2 by simp_all
  have d3: "fCurrentFrame d3 = Some []" "fFrames d3 = []" "fID d3 = 0"
    "fExpectedFrameSize d3 = fExpectedFrameSize d" "fFixedBuffer d3 \<noteq> None"
    "fFixedBufferSize d3 = fFixedBufferSize d"
    "fFixedBufferPos d3 = (if fFixedBufferPos d + L \<le> fFixedBufferSize d
                           then fFixedBufferPos d + L else fFixedBufferPos d)"
    unfolding d3_def append_payload_def Let_def sz using E d2 assms(7) by simp_all
  have lt: "\<not> fExpectedFrameSize d3 \<le> fFixedBufferPos d3"
    using d3(4,7) assms(5,6) by simp
  have e3: "0 < fExpectedFrameSize d3" using d3(4) assms(6) by simp
  have dc: "detect_complete d3 (eof_flag buf) (fid_changed d0 buf) = (d3, False)"
    using detect_complete_no_eof [OF e3, of "fid_changed d0 buf"] ne lt by simp
  have nz: "length buf - unat (buf ! 0) \<noteq> 0" using sz assms(7) by simp
  have W: "snd (Write d buf) = d3"
    using hv nz d2(1) dc [unfolded d3_def]
    unfolding Write_def Let_def d0_def [symmetric] d1 d3_def by simp
  then have "d' = d3" using assms(8) by (simp add: buf_def)
  with d3 show "fFixedBuffer d' \<noteq> None" "fCurrentFrame d' = Some []" "fFrames d' = []" "fID d' = 0"
    "fFixedBufferSize d' = fFixedBufferSize d" "fExpectedFrameSize d' = fExpectedFrameSize d"
    "fFixedBufferPos d' = (if fFixedBufferPos d + L \<le> fFixedBufferSize d
                           then fFixedBufferPos d + L else fFixedBufferPos d)"
    by simp_all
qed

lemma writes_over_buffer:
  assumes "fFixedBuffer d \<noteq> None" "fCurrentFrame d = None \<or> fCurrentFrame d = Some []"
    and "fFrames d = []" "fID d = 0" "fFixedBufferPos d = j * L" "j \<le> q"
    and "fFixedBufferSize d = q * L"
    and "fFixedBufferSize d + L < fExpectedFrameSize d" "0 < L"
  shows "fFrames (writes d (replicate k (2 # 0 # replicate L 0))) = []
       \<and> fFixedBufferPos (writes d (replicate k (2 # 0 # replicate L 0))) = min (j + k) q * L"
  using assms
proof (induction k arbitrary: d j)
  case 0
  then show ?case by (simp add: min_def)
next
  case (Suc k)
  define d' where "d' = snd (Write d (2 # 0 # replicate L 0))"
  have le: "fFixedBufferPos d \<le> fFixedBufferSize d" using Suc.prems(5,6,7) by simp
  note w = Write_over_buffer [OF Suc.prems(1,2,3,4) le Suc.prems(8,9) d'_def]
  have fit: "fFixedBufferPos d + L \<le> fFixedBufferSize d \<longleftrightarrow> j < q"
  proof -
    have "fFixedBufferPos d + L = Suc j * L" using Suc.prems(5) by simp
    then have "fFixedBufferPos d + L \<le> fFixedBufferSize d \<longleftrightarrow> Suc j * L \<le> q * L"
      using Suc.prems(7) by (simp only:)
    also have "\<dots> \<longleftrightarrow> Suc j \<le> q"
      using Suc.prems(9) by (simp only: mult_le_cancel2) simp
    also have "\<dots> \<longleftrightarrow> j < q" by (simp add: Suc_le_eq)
    finally show ?thesis .
  qed
  define j' where "j' = (if j < q then Suc j else j)"
  have pos': "fFixedBufferPos d' = j' * L" using w(7) fit Suc.prems(5) by (simp add: j'_def)
  have jq: "j' \<le> q" using Suc.prems(6) by (simp add: j'_def)
  have c': "fCurrentFrame d' = None \<or> fCurrentFrame d' = Some []" using w(2) by simp
  have s': "fFixedBufferSize d' = q * L" using w(5) Suc.prems(7) by simp
  have e': "fFixedBufferSize d' + L < fExpectedFrameSize d'" using w(5,6) Suc.prems(8) by simp
  from Suc.IH [OF w(1) c' w(3) w(4) pos' jq s' e' Suc.prems(9)]
  have "fFrames (writes d' (replicate k (2 # 0 # replicate L 0))) = []
       \<and> fFixedBufferPos (writes d' (replicate k (2 # 0 # replicate L 0))) = min (j' + k) q * L" .
  moreover have "min (j' + k) q = min (j + Suc k) q" using Suc.prems(6) by (auto simp: j'_def min_def)
  ultimately show ?case by (simp add: d'_def)
qed

text \<open>
  Claim C1 (as amended). Take any state the deframer can be in, in fixed-size mode in
  working order: an expected size \<open>width * height * 2\<close> that is positive and fits the
  allocated fixed buffer, a fill that has not passed it, and a queue of frames of that
  size; a new or flushed deframer on which the expected size has been set is such a
  state. Then after every sequence of packets each frame in the queue has length
  \<open>width * height * 2\<close> and the fill is at most that; and the next packet, when it has a
  valid header and at least one payload byte, does this. If no frame buffer is
  available (no current frame and \<open>MAXFRAMEBUF\<close> frames in the queue) it is dropped:
  nothing is published and one queue overflow is counted. Otherwise a frame is
  published exactly when the packet has the EOF flag or the fill (0 after a FID
  change), with the payload, reaches the expected size; the appended payload is clipped
  to the expected size, and the remainder after a short EOF frame is the repeating
  pattern \<open>{00, 80, 00, 80}\<close>.
\<close>

theorem yuy2_fixed_size_frames:
  assumes "reachable d" and "yuy2_inv d" and "fExpectedFrameSize d = width * height * 2"
  shows "\<forall>bufs buf.
     (let d1 = writes d bufs;
          E = width * height * 2;
          fill = (if fid_changed d1 buf then 0 else fFixedBufferPos d1);
          n = min (length (payload buf)) (E - fill);
          d' = snd (Write d1 buf)
      in (\<forall>f \<in> set (fFrames d1). length f = E) \<and> fFixedBufferPos d1 \<le> E
         \<and> (\<not> header_invalid buf \<and> payload buf \<noteq> [] \<longrightarrow>
              (if \<not> frame_available d1
               then fFrames d' = fFrames d1 \<and> fQueueOverflows d' = fQueueOverflows d1 + 1
               else if eof_flag buf \<or> E \<le> fill + length (payload buf)
               then fFrames d' = fFrames d1 @ [fixed_bytes d1 fill @ take n (payload buf)
                                                @ pad_bytes (E - (fill + n))]
                    \<and> fFixedBufferPos d' = 0
               else fFrames d' = fFrames d1 \<and> fFixedBufferPos d' = fill + length (payload buf)
                    \<and> fixed_bytes d' (fill + length (payload buf)) = fixed_bytes d1 fill @ payload buf)))"
proof (intro allI)
  fix bufs buf
  define d1 where "d1 = writes d bufs"
  define fill where "fill = (if fid_changed d1 buf then 0 else fFixedBufferPos d1)"
  define n where "n = min (length (payload buf)) (fExpectedFrameSize d1 - fill)"
  note cur = reachable_current_frame [OF assms(1)]
  from yuy2_inv_writes [OF assms(2) cur, of bufs]
  have inv1: "yuy2_inv d1" and E1: "fExpectedFrameSize d1 = width * height * 2"
    and cur1: "fCurrentFrame d1 = None \<or> fCurrentFrame d1 = Some []"
    using assms(3) by (simp_all add: d1_def)
  have len: "\<forall>f \<in> set (fFrames d1). length f = width * height * 2"
    and pos: "fFixedBufferPos d1 \<le> width * height * 2"
    using inv1 E1 by (auto simp: yuy2_inv_def)
  have step: "if \<not> frame_available d1
               then fFrames (snd (Write d1 buf)) = fFrames d1
                    \<and> fQueueOverflows (snd (Write d1 buf)) = fQueueOverflows d1 + 1
               else if eof_flag buf \<or> fExpectedFrameSize d1 \<le> fill + length (payload buf)
               then fFrames (snd (Write d1 buf)) =
                      fFrames d1 @ [fixed_bytes d1 fill @ take n (payload buf)
                                     @ pad_bytes (fExpectedFrameSize d1 - (fill + n))]
                    \<and> fFixedBufferPos (snd (Write d1 buf)) = 0
               else fFrames (snd (Write d1 buf)) = fFrames d1
                    \<and> fFixedBufferPos (snd (Write d1 buf)) = fill + length (payload buf)
                    \<and> fixed_bytes (snd (Write d1 buf)) (fill + length (payload buf))
                        = fixed_bytes d1 fill @ payload buf"
    if hv: "\<not> header_invalid buf" and pl: "payload buf \<noteq> []"
  proof -
    note st = yuy2_write_step [OF inv1 cur1 hv pl fill_def n_def]
    show ?thesis
    proof (cases "frame_available d1")
      case False
      with st(1) show ?thesis by simp
    next
      case av: True
      show ?thesis
      proof (cases "eof_flag buf \<or> fExpectedFrameSize d1 \<le> fill + length (payload buf)")
        case True
        with st(2) [OF av] av show ?thesis by simp
      next
        case False
        with st(3) [OF av] av show ?thesis by simp
      qed
    qed
  qed
  show "let d1 = writes d bufs;
          E = width * height * 2;
          fill = (if fid_changed d1 buf then 0 else fFixedBufferPos d1);
          n = min (length (payload buf)) (E - fill);
          d' = snd (Write d1 buf)
      in (\<forall>f \<in> set (fFrames d1). length f = E) \<and> fFixedBufferPos d1 \<le> E
         \<and> (\<not> header_invalid buf \<and> payload buf \<noteq> [] \<longrightarrow>
              (if \<not> frame_available d1
               then fFrames d' = fFrames d1 \<and> fQueueOverflows d' = fQueueOverflows d1 + 1
               else if eof_flag buf \<or> E \<le> fill + length (payload buf)
               then fFrames d' = fFrames d1 @ [fixed_bytes d1 fill @ take n (payload buf)
                                                @ pad_bytes (E - (fill + n))]
                    \<and> fFixedBufferPos d' = 0
               else fFrames d' = fFrames d1 \<and> fFixedBufferPos d' = fill + length (payload buf)
                    \<and> fixed_bytes d' (fill + length (payload buf)) = fixed_bytes d1 fill @ payload buf))"
    unfolding Let_def d1_def [symmetric] fill_def [symmetric] E1 [symmetric] n_def [symmetric]
    using len pos step unfolding E1 [symmetric] by blast
qed

theorem yuy2_fixed_size_frames_witness:
  "list_all (\<lambda>f. length f = 16)
     (fFrames (writes (SetExpectedFrameSize (UVCDeframer_new (Some (\<lambda>i. 0))) 16)
        [[2, 1, 0, 0x80, 0, 0x80, 0, 0x80], [2, 1, 0, 0x80, 0, 0x80, 0, 0x80], [2, 3, 0, 0x80]]))
   \<and> fFrames (snd (Write (SetExpectedFrameSize (UVCDeframer_new (Some (\<lambda>i. 0))) 16) [2, 3, 0x11, 0x22]))
       = [[0x11, 0x22, 0, 0x80, 0, 0x80, 0, 0x80, 0, 0x80, 0, 0x80, 0, 0x80, 0, 0x80]]
   \<and> fFrames (snd (Write (SetExpectedFrameSize (UVCDeframer_new (Some (\<lambda>i. 0))) 16)
                  [2, 0, 1, 2, 3, 4, 5, 6])) = []
   \<and> fFixedBufferPos (snd (Write (SetExpectedFrameSize (UVCDeframer_new (Some (\<lambda>i. 0))) 16)
                  [2, 0, 1, 2, 3, 4, 5, 6])) = 6
   \<and> length (fFrames (snd (Write (writes (SetExpectedFrameSize (UVCDeframer_new (Some (\<lambda>i. 0))) 4)
        [[2, 2, 1, 2, 3, 4], [2, 2, 1, 2, 3, 4], [2, 2, 1, 2, 3, 4], [2, 2, 1, 2, 3, 4],
         [2, 2, 1, 2, 3, 4], [2, 2, 1, 2, 3, 4], [2, 2, 1, 2, 3, 4], [2, 2, 1, 2, 3, 4]])
        [2, 2, 5, 6, 7, 8]))) = 8
   \<and> fQueueOverflows (snd (Write (writes (SetExpectedFrameSize (UVCDeframer_new (Some (\<lambda>i. 0))) 4)
        [[2, 2, 1, 2, 3, 4], [2, 2, 1, 2, 3, 4], [2, 2, 1, 2, 3, 4], [2, 2, 1, 2, 3, 4],
         [2, 2, 1, 2, 3, 4], [2, 2, 1, 2, 3, 4], [2, 2, 1, 2, 3, 4], [2, 2, 1, 2, 3, 4]])
        [2, 2, 5, 6, 7, 8])) = 1"
proof -
  define d where "d = SetExpectedFrameSize (UVCDeframer_new (Some (\<lambda>i. 0))) 16"
  have r: "reachable d" unfolding d_def by (intro reachable.intros)
  have inv: "yuy2_inv d" unfolding d_def by (rule yuy2_inv_start) simp_all
  have e: "fExpectedFrameSize d = 2 * 4 * 2" by (simp add: d_def SetExpectedFrameSize_def)
  have fa: "frame_available d"
    by (simp add: d_def frame_available_def SetExpectedFrameSize_def UVCDeframer_new_def)
  have pb: "pad_bytes 14 = [0, 0x80, 0, 0x80, 0, 0x80, 0, 0x80, 0, 0x80, 0, 0x80, 0, 0x80]"
    by (simp add: pad_bytes_def padPattern_def upt_rec [of _ "numeral _"])
  note th = yuy2_fixed_size_frames [OF r inv e]
  note t1 = th [THEN spec [where x = "[[2, 1, 0, 0x80, 0, 0x80, 0, 0x80],
                   [2, 1, 0, 0x80, 0, 0x80, 0, 0x80], [2, 3, 0, 0x80]]"],
                THEN spec [where x = "[]"], unfolded Let_def, THEN conjunct1]
  then have a: "list_all (\<lambda>f. length f = 16) (fFrames (writes d
        [[2, 1, 0, 0x80, 0, 0x80, 0, 0x80], [2, 1, 0, 0x80, 0, 0x80, 0, 0x80], [2, 3, 0, 0x80]]))"
    by (simp del: writes.simps add: list_all_iff)
  have av: "\<not> header_invalid [2, 3, 0x11, 0x22] \<and> payload [2, 3, 0x11, 0x22] \<noteq> []"
    by (simp add: header_invalid_def payload_def)
  note t2 = th [THEN spec [where x = "[]"], THEN spec [where x = "[2, 3, 0x11, 0x22]"],
                unfolded Let_def, THEN conjunct2, THEN conjunct2, THEN mp, OF av]
  from t2 fa have b: "fFrames (snd (Write d [2, 3, 0x11, 0x22]))
       = [[0x11, 0x22, 0, 0x80, 0, 0x80, 0, 0x80, 0, 0x80, 0, 0x80, 0, 0x80, 0, 0x80]]"
    by (simp add: eof_flag_def fid_changed_def payload_def fixed_bytes_def load_bytes_def pb
          d_def SetExpectedFrameSize_def UVCDeframer_new_def)
  have av3: "\<not> header_invalid [2, 0, 1, 2, 3, 4, 5, 6] \<and> payload [2, 0, 1, 2, 3, 4, 5, 6] \<noteq> []"
    by (simp add: header_invalid_def payload_def)
  note t3 = th [THEN spec [where x = "[]"], THEN spec [where x = "[2, 0, 1, 2, 3, 4, 5, 6]"],
                unfolded Let_def, THEN conjunct2, THEN conjunct2, THEN mp, OF av3]
  from t3 fa have c: "fFrames (snd (Write d [2, 0, 1, 2, 3, 4, 5, 6])) = []
       \<and> fFixedBufferPos (snd (Write d [2, 0, 1, 2, 3, 4, 5, 6])) = 6"
    by (simp add: eof_flag_def fid_changed_def payload_def
          d_def SetExpectedFrameSize_def UVCDeframer_new_def)
  define d4 where "d4 = SetExpectedFrameSize (UVCDeframer_new (Some (\<lambda>i. 0))) 4"
  define full :: "u8 list list" where "full =
       [[2, 2, 1, 2, 3, 4], [2, 2, 1, 2, 3, 4], [2, 2, 1, 2, 3, 4], [2, 2, 1, 2, 3, 4],
        [2, 2, 1, 2, 3, 4], [2, 2, 1, 2, 3, 4], [2, 2, 1, 2, 3, 4], [2, 2, 1, 2, 3, 4]]"
  have r4: "reachable d4" unfolding d4_def by (intro reachable.intros)
  have inv4: "yuy2_inv d4" unfolding d4_def by (rule yuy2_inv_start) simp_all
  have e4: "fExpectedFrameSize d4 = 1 * 2 * 2" by (simp add: d4_def SetExpectedFrameSize_def)
  have q: "\<not> frame_available (writes d4 full) \<and> length (fFrames (writes d4 full)) = 8
       \<and> fQueueOverflows (writes d4 full) = 0"
    unfolding d4_def full_def by (simp add: deframer_eval frame_available_def)
  have av4: "\<not> header_invalid [2, 2, 5, 6, 7, 8] \<and> payload [2, 2, 5, 6, 7, 8] \<noteq> []"
    by (simp add: header_invalid_def payload_def)
  note t4 = yuy2_fixed_size_frames [OF r4 inv4 e4, THEN spec [where x = full],
                THEN spec [where x = "[2, 2, 5, 6, 7, 8]"],
                unfolded Let_def, THEN conjunct2, THEN conjunct2, THEN mp, OF av4]
  from t4 q have f: "length (fFrames (snd (Write (writes d4 full) [2, 2, 5, 6, 7, 8]))) = 8
       \<and> fQueueOverflows (snd (Write (writes d4 full) [2, 2, 5, 6, 7, 8])) = 1"
    by (simp del: writes.simps)
  from a b c f show ?thesis unfolding d_def d4_def full_def by (simp del: writes.simps)
qed

text \<open>
  The claim as first stated fails in these places.

  \<^item> A header-only packet returns before the EOF flag is looked at: after one packet of
    4 payload bytes for an expected size of 16, the packet \<open>[02, 03]\<close> (EOF, no payload)
    publishes nothing.

  \<^item> A packet that arrives when the queue is full is dropped: with an expected size of 4
    bytes, eight packets of 4 payload bytes fill the queue, and the ninth, which has the
    EOF flag and a full frame of payload, publishes nothing.

  \<^item> \<open>SetExpectedFrameSize\<close> sets the expected size and nothing else. Called on a
    deframer at work and without \<open>Flush\<close> (the resolution fallback does so, the
    resolution parameter flushes), it leaves a frame of 8 bytes in the queue for an
    expected size of 4; and it leaves a fill of 6 bytes, which the next packet
    publishes as a frame of 6 bytes.

  \<^item> Without a fixed buffer (\<open>malloc\<close> failed) no payload is kept, and an EOF packet
    with a full frame of payload publishes an empty frame.

  \<^item> An expected size of 7372800 bytes (2560 x 1440) is above the 4194304 bytes of the
    fixed buffer. The copy of a payload is refused once the buffer is full: after 3600
    packets of 2048 payload bytes, the payload of a whole frame, the fill stands at
    4194304 and nothing has been published. And the padding loop of a short EOF frame
    has no such test: it stores past the end of the buffer, here over the bytes \<open>FF\<close> at
    the offsets 4194304 and 4194305.
\<close>

theorem yuy2_publish_counterexample:
  "yuy2_inv (writes (SetExpectedFrameSize (UVCDeframer_new (Some (\<lambda>i. 0))) 16) [[2, 1, 0, 0x80, 0, 0x80]])
   \<and> \<not> header_invalid [2, 3] \<and> eof_flag [2, 3]
   \<and> fFrames (writes (SetExpectedFrameSize (UVCDeframer_new (Some (\<lambda>i. 0))) 16)
         [[2, 1, 0, 0x80, 0, 0x80], [2, 3]]) = []
   \<and> \<not> header_invalid [2, 2, 5, 6, 7, 8] \<and> eof_flag [2, 2, 5, 6, 7, 8]
   \<and> length (payload [2, 2, 5, 6, 7, 8]) = 4
   \<and> fFrames (writes (SetExpectedFrameSize (UVCDeframer_new (Some (\<lambda>i. 0))) 4)
     [[2, 2, 1, 2, 3, 4], [2, 2, 1, 2, 3, 4], [2, 2, 1, 2, 3, 4], [2, 2, 1, 2, 3, 4],
      [2, 2, 1, 2, 3, 4], [2, 2, 1, 2, 3, 4], [2, 2, 1, 2, 3, 4], [2, 2, 1, 2, 3, 4],
      [2, 2, 5, 6, 7, 8]])
     = [[1, 2, 3, 4], [1, 2, 3, 4], [1, 2, 3, 4], [1, 2, 3, 4],
        [1, 2, 3, 4], [1, 2, 3, 4], [1, 2, 3, 4], [1, 2, 3, 4]]
   \<and> fExpectedFrameSize (SetExpectedFrameSize
        (writes (SetExpectedFrameSize (UVCDeframer_new (Some (\<lambda>i. 0))) 8)
           [[2, 2, 1, 2, 3, 4, 5, 6, 7, 8]]) 4) = 4
   \<and> fFrames (SetExpectedFrameSize
        (writes (SetExpectedFrameSize (UVCDeframer_new (Some (\<lambda>i. 0))) 8)
           [[2, 2, 1, 2, 3, 4, 5, 6, 7, 8]]) 4) = [[1, 2, 3, 4, 5, 6, 7, 8]]
   \<and> fFrames (writes (SetExpectedFrameSize
        (writes (SetExpectedFrameSize (UVCDeframer_new (Some (\<lambda>i. 0))) 8)
           [[2, 0, 1, 2, 3, 4, 5, 6]]) 4) [[2, 0, 7]]) = [[1, 2, 3, 4, 5, 6]]
   \<and> fFrames (writes (SetExpectedFrameSize (UVCDeframer_new None) 4) [[2, 2, 1, 2, 3, 4]]) = [[]]
   \<and> fFixedBufferSize (SetExpectedFrameSize (UVCDeframer_new (Some (\<lambda>i. 0xFF))) 7372800) = 4194304
   \<and> fFrames (writes (SetExpectedFrameSize (UVCDeframer_new (Some (\<lambda>i. 0xFF))) 7372800)
        (replicate 3600 (2 # 0 # replicate 2048 0))) = []
   \<and> fFixedBufferPos (writes (SetExpectedFrameSize (UVCDeframer_new (Some (\<lambda>i. 0xFF))) 7372800)
        (replicate 3600 (2 # 0 # replicate 2048 0))) = 4194304
   \<and> map (the (fFixedBuffer (snd (Write
        (SetExpectedFrameSize (UVCDeframer_new (Some (\<lambda>i. 0xFF))) 7372800) [2, 2, 0x10, 0x80]))))
       [4194304, 4194305] = [0, 0x80]"
proof -
  have a: "yuy2_inv (writes (SetExpectedFrameSize (UVCDeframer_new (Some (\<lambda>i. 0))) 16) [[2, 1, 0, 0x80, 0, 0x80]])
   \<and> \<not> header_invalid [2, 3] \<and> eof_flag [2, 3]
   \<and> fFrames (writes (SetExpectedFrameSize (UVCDeframer_new (Some (\<lambda>i. 0))) 16)
         [[2, 1, 0, 0x80, 0, 0x80], [2, 3]]) = []"
    by (simp add: deframer_eval yuy2_inv_def)
  have b: "\<not> header_invalid [2, 2, 5, 6, 7, 8] \<and> eof_flag [2, 2, 5, 6, 7, 8]
   \<and> length (payload [2, 2, 5, 6, 7, 8]) = 4
   \<and> fFrames (writes (SetExpectedFrameSize (UVCDeframer_new (Some (\<lambda>i. 0))) 4)
     [[2, 2, 1, 2, 3, 4], [2, 2, 1, 2, 3, 4], [2, 2, 1, 2, 3, 4], [2, 2, 1, 2, 3, 4],
      [2, 2, 1, 2, 3, 4], [2, 2, 1, 2, 3, 4], [2, 2, 1, 2, 3, 4], [2, 2, 1, 2, 3, 4],
      [2, 2, 5, 6, 7, 8]])
     = [[1, 2, 3, 4], [1, 2, 3, 4], [1, 2, 3, 4], [1, 2, 3, 4],
        [1, 2, 3, 4], [1, 2, 3, 4], [1, 2, 3, 4], [1, 2, 3, 4]]"
    by (simp add: deframer_eval load_bytes_def store_bytes_def upt_rec [of _ "numeral _"])
  have c: "fExpectedFrameSize (SetExpectedFrameSize
        (writes (SetExpectedFrameSize (UVCDeframer_new (Some (\<lambda>i. 0))) 8)
           [[2, 2, 1, 2, 3, 4, 5, 6, 7, 8]]) 4) = 4
   \<and> fFrames (SetExpectedFrameSize
        (writes (SetExpectedFrameSize (UVCDeframer_new (Some (\<lambda>i. 0))) 8)
           [[2, 2, 1, 2, 3, 4, 5, 6, 7, 8]]) 4) = [[1, 2, 3, 4, 5, 6, 7, 8]]"
    by (simp add: deframer_eval load_bytes_def store_bytes_def upt_rec [of _ "numeral _"])
  have d: "fFrames (writes (SetExpectedFrameSize
        (writes (SetExpectedFrameSize (UVCDeframer_new (Some (\<lambda>i. 0))) 8)
           [[2, 0, 1, 2, 3, 4, 5, 6]]) 4) [[2, 0, 7]]) = [[1, 2, 3, 4, 5, 6]]"
    by (simp add: deframer_eval load_bytes_def store_bytes_def upt_rec [of _ "numeral _"])
  have e: "fFrames (writes (SetExpectedFrameSize (UVCDeframer_new None) 4) [[2, 2, 1, 2, 3, 4]]) = [[]]"
    by (simp add: deframer_eval)
  have f: "fFrames (writes (SetExpectedFrameSize (UVCDeframer_new (Some (\<lambda>i. 0xFF))) 7372800)
        (replicate 3600 (2 # 0 # replicate 2048 0))) = []
   \<and> fFixedBufferPos (writes (SetExpectedFrameSize (UVCDeframer_new (Some (\<lambda>i. 0xFF))) 7372800)
        (replicate 3600 (2 # 0 # replicate 2048 0))) = 4194304"
    using writes_over_buffer [of "SetExpectedFrameSize (UVCDeframer_new (Some (\<lambda>i. 0xFF))) 7372800"
             0 2048 2048 3600]
    by (simp add: SetExpectedFrameSize_def UVCDeframer_new_def)
  have g: "fFixedBufferSize (SetExpectedFrameSize (UVCDeframer_new (Some (\<lambda>i. 0xFF))) 7372800) = 4194304
   \<and> map (the (fFixedBuffer (snd (Write
        (SetExpectedFrameSize (UVCDeframer_new (Some (\<lambda>i. 0xFF))) 7372800) [2, 2, 0x10, 0x80]))))
       [4194304, 4194305] = [0, 0x80]"
    by (simp add: deframer_eval case_prod_beta pad_loop_snd pad_loop_nth padPattern_def)
  from a b c d e f g show ?thesis by (simp only: simp_thms)
qed

section \<open>Proofs: MJPEG mode and the FID toggle\<close>

text \<open>
  Claim C2. The scenario S2 of the specification in MJPEG mode: the payload of P1 and P2
  goes to the fixed buffer, never to \<open>fInputBuffer\<close>, which is what the FID toggle of P3
  looks at, so no frame is published; and when P2 carries the EOF flag, the frame that is
  published is empty.
\<close>

theorem mjpeg_fid_toggle_publishes_nothing:
  "fExpectedFrameSize (UVCDeframer_new (Some (\<lambda>i. 0))) = 0
   \<and> fFrames (writes (UVCDeframer_new (Some (\<lambda>i. 0)))
        [[0x02, 0x01, 0xFF, 0xD8, 0xAA, 0xAA], [0x02, 0x01, 0xBB, 0xBB, 0xFF, 0xD9], [0x02, 0x00, 0xFF, 0xD8]]) = []
   \<and> fFrames (writes (UVCDeframer_new (Some (\<lambda>i. 0)))
        [[0x02, 0x01, 0xFF, 0xD8, 0xAA, 0xAA], [0x02, 0x03, 0xBB, 0xBB, 0xFF, 0xD9], [0x02, 0x00, 0xFF, 0xD8]]) = [[]]"
  by (simp add: deframer_eval)


section \<open>Proofs: probe and commit\<close>

text \<open>
  Claim C3 (as amended). The commit is sent with the block the device returned for
  GET_CUR on the probe control, and the function fails when the probe or the commit
  SET_CUR does not transfer the whole block. When both do, it succeeds and stores the
  two sizes of the response, whatever they are: zero sizes are logged, not refused.
\<close>

theorem probe_commit_exchange:
  assumes "fDevice cam = Some dev"
    and "len = (if version cam > 0x100 then 34 else 26)"
    and "ControlTransfer dev SET_CUR_PROBE len (probe_request cam frameInterval) = (n1, buf1, dev1)"
    and "ControlTransfer dev1 GET_CUR_PROBE len zero_controls = (n2, response, dev2)"
    and "ControlTransfer dev2 SET_CUR_COMMIT len response = (n3, buf3, dev3)"
    and "ProbeCommitFormat ControlTransfer cam frameInterval = (st, cam')"
  shows "(n1 \<noteq> len \<longrightarrow> st = B_ERROR
            \<and> control_log cam' = control_log cam @ [(SET_CUR_PROBE, probe_request cam frameInterval)])
       \<and> (n1 = len \<longrightarrow>
            control_log cam' = control_log cam @
              [(SET_CUR_PROBE, probe_request cam frameInterval), (GET_CUR_PROBE, zero_controls),
               (SET_CUR_COMMIT, response)]
            \<and> (n3 \<noteq> len \<longrightarrow> st = B_ERROR)
            \<and> (n3 = len \<longrightarrow> st = B_OK
                  \<and> fMaxVideoFrameSize cam' = max_video_frame_size response
                  \<and> fMaxPayloadTransferSize cam' = max_payload_transfer_size response))"
  using assms by (auto simp: ProbeCommitFormat_def Let_def split: if_splits)

theorem probe_commit_exchange_witness:
  "fst (ProbeCommitFormat echo_camera
         (cam0\<lparr>fDevice := Some (zero_controls\<lparr>format_index := 1, frame_index := 3,
                    max_video_frame_size := 153600, max_payload_transfer_size := 3072\<rparr>)\<rparr>) 333333) = B_OK
   \<and> fMaxVideoFrameSize (snd (ProbeCommitFormat echo_camera
         (cam0\<lparr>fDevice := Some (zero_controls\<lparr>format_index := 1, frame_index := 3,
                    max_video_frame_size := 153600, max_payload_transfer_size := 3072\<rparr>)\<rparr>) 333333)) = 153600
   \<and> frame_index (snd (last (control_log (snd (ProbeCommitFormat echo_camera
         (cam0\<lparr>fDevice := Some (zero_controls\<lparr>format_index := 1, frame_index := 3,
                    max_video_frame_size := 153600, max_payload_transfer_size := 3072\<rparr>)\<rparr>) 333333))))) = 3"
proof -
  define dev where "dev = zero_controls\<lparr>format_index := 1, frame_index := 3,
                    max_video_frame_size := 153600, max_payload_transfer_size := 3072\<rparr>"
  define cam where "cam = cam0\<lparr>fDevice := Some dev\<rparr>"
  obtain st cam' where r: "ProbeCommitFormat echo_camera cam 333333 = (st, cam')"
    by (cases "ProbeCommitFormat echo_camera cam 333333")
  have d: "fDevice cam = Some dev" by (simp add: cam_def)
  have l: "(26::nat) = (if version cam > 0x100 then 34 else 26)" by (simp add: cam_def cam0_def)
  have t1: "echo_camera dev SET_CUR_PROBE 26 (probe_request cam 333333) = (26, probe_request cam 333333, dev)"
    by (simp add: echo_camera_def)
  have t2: "echo_camera dev GET_CUR_PROBE 26 zero_controls = (26, dev, dev)"
    by (simp add: echo_camera_def)
  have t3: "echo_camera dev SET_CUR_COMMIT 26 dev = (26, dev, dev)"
    by (simp add: echo_camera_def)
  from probe_commit_exchange [OF d l t1 t2 t3 r]
  have "st = B_OK" "fMaxVideoFrameSize cam' = max_video_frame_size dev"
    "control_log cam' = control_log cam @
              [(SET_CUR_PROBE, probe_request cam 333333), (GET_CUR_PROBE, zero_controls),
               (SET_CUR_COMMIT, dev)]"
    by simp_all
  then show ?thesis using r unfolding cam_def [symmetric] dev_def [symmetric]
    by (simp add: dev_def)
qed

text \<open>
  The claim as first stated fails: a camera that answers the probe with zero sizes and
  accepts the commit gets \<open>B_OK\<close>, and the zero sizes are stored.
\<close>

theorem probe_zero_sizes_counterexample:
  "max_video_frame_size zero_controls = 0 \<and> max_payload_transfer_size zero_controls = 0
   \<and> fst (ProbeCommitFormat echo_camera cam0 333333) = B_OK
   \<and> fMaxVideoFrameSize (snd (ProbeCommitFormat echo_camera cam0 333333)) = 0
   \<and> fMaxPayloadTransferSize (snd (ProbeCommitFormat echo_camera cam0 333333)) = 0
   \<and> map fst (control_log (snd (ProbeCommitFormat echo_camera cam0 333333)))
       = [SET_CUR_PROBE, GET_CUR_PROBE, SET_CUR_COMMIT]"
  by (simp add: ProbeCommitFormat_def cam0_def echo_camera_def zero_controls_def Let_def)

section \<open>Proofs: the descriptors of an isochronous transfer\<close>

lemma forwarded_update [simp]:
  "fBufferLen (process_descriptor w slot descs i p) = fBufferLen p"
  "fBuffer (process_descriptor w slot descs i p) = fBuffer p"
  by (simp_all add: process_descriptor_def Let_def split: option.splits)

lemma process_descriptor_cases:
  assumes "fDataInput p = Some s"
  shows "process_descriptor w slot descs i p =
     (if failed descs i then p\<lparr>fPacketErrorCount := fPacketErrorCount p + 1\<rparr>
      else if forwarded (fBufferLen p) slot descs i
      then p\<lparr>fDataInput := Some (w s (buffer_slice (fBuffer p) (i * slot) (nat (actual_length (descs ! i))))),
             fPacketSuccessCount := fPacketSuccessCount p + 1\<rparr>
      else p)"
  using assms by (auto simp: process_descriptor_def failed_def forwarded_def Let_def)

lemma fold_process_descriptor:
  assumes "fDataInput p = Some s"
  shows "fold (process_descriptor w slot descs) idxs p =
     p\<lparr>fDataInput :=
         Some (fold (\<lambda>i s. w s (buffer_slice (fBuffer p) (i * slot) (nat (actual_length (descs ! i)))))
                 (filter (forwarded (fBufferLen p) slot descs) idxs) s),
       fPacketSuccessCount :=
         fPacketSuccessCount p + of_nat (length (filter (forwarded (fBufferLen p) slot descs) idxs)),
       fPacketErrorCount := fPacketErrorCount p + of_nat (length (filter (failed descs) idxs))\<rparr>"
  using assms
proof (induction idxs arbitrary: p s)
  case Nil
  then show ?case by simp
next
  case (Cons i idxs)
  have nf: "forwarded (fBufferLen p) slot descs i \<Longrightarrow> \<not> failed descs i"
    by (simp add: forwarded_def failed_def)
  show ?case
  proof (cases "failed descs i")
    case True
    let ?p1 = "p\<lparr>fPacketErrorCount := fPacketErrorCount p + 1\<rparr>"
    have s1: "process_descriptor w slot descs i p = ?p1"
      using process_descriptor_cases [OF Cons.prems] True by simp
    have "fDataInput ?p1 = Some s" using Cons.prems by simp
    from Cons.IH [OF this] s1 True nf show ?thesis by (auto simp: add.assoc)
  next
    case False
    show ?thesis
    proof (cases "forwarded (fBufferLen p) slot descs i")
      case True
      let ?s1 = "w s (buffer_slice (fBuffer p) (i * slot) (nat (actual_length (descs ! i))))"
      let ?p1 = "p\<lparr>fDataInput := Some ?s1, fPacketSuccessCount := fPacketSuccessCount p + 1\<rparr>"
      have s1: "process_descriptor w slot descs i p = ?p1"
        using process_descriptor_cases [OF Cons.prems] True False by simp
      have "fDataInput ?p1 = Some ?s1" by simp
      from Cons.IH [OF this] s1 True False show ?thesis by (simp add: add.assoc)
    next
      case nfw: False
      have s1: "process_descriptor w slot descs i p = p"
        using process_descriptor_cases [OF Cons.prems] nfw False by simp
      from Cons.IH [OF Cons.prems] s1 nfw False show ?thesis by simp
    qed
  qed
qed

lemma slot_guard:
  assumes "i < n" "0 \<le> a" "a \<le> int (len div n)"
  shows "i * (len div n) + nat a \<le> len"
proof -
  have "i * (len div n) + nat a \<le> i * (len div n) + len div n" using assms by simp
  also have "\<dots> = Suc i * (len div n)" by simp
  also have "\<dots> \<le> n * (len div n)" using assms(1) by (intro mult_le_mono1) simp
  also have "\<dots> \<le> len" by simp
  finally show ?thesis .
qed

lemma num_packet_descriptors_buffer:
  "0 < packetSize \<Longrightarrow> num_packet_descriptors (packetSize * 32) packetSize = 32"
  by (simp add: num_packet_descriptors_def)

lemma forwarded_in_slot:
  assumes "i < n" "fBufferLen p = packetSize * n"
    and "actual_length (descs ! i) \<le> int packetSize"
  shows "forwarded (fBufferLen p) packetSize descs i
           \<longleftrightarrow> status (descs ! i) = B_OK \<and> actual_length (descs ! i) > 0"
proof -
  have "packetSize = fBufferLen p div n" using assms(1,2) by simp
  with slot_guard [OF assms(1), of "actual_length (descs ! i)" "fBufferLen p"] assms(3)
  show ?thesis by (auto simp: forwarded_def)
qed

text \<open>
  Claim C4. The pump runs with its sink connected (the constructor of the device
  connects the deframer), on a transfer buffer of \<open>packetSize * n\<close> bytes for \<open>n\<close>
  descriptors (alternate selection allocates \<open>packetSize * 32\<close> bytes, for which
  \<open>n = 32\<close>), each descriptor asking for \<open>packetSize\<close> bytes and reporting no more than
  it asked for. Then the loop over the descriptors \<open>0..n-1\<close> takes the payload of
  packet \<open>i\<close> at the fixed offset \<open>i * packetSize\<close>; it forwards, in order and as one
  write each, every descriptor with status OK and a positive length, and counts it as
  a success; every descriptor with another status counts as an error and is not
  forwarded.
\<close>

theorem iso_descriptors_processed:
  assumes "fDataInput p = Some s" and "0 < n" and "fBufferLen p = packetSize * n"
    and "\<forall>i<n. request_length (descs ! i) = packetSize
               \<and> actual_length (descs ! i) \<le> int (request_length (descs ! i))"
  shows "process_transfer w descs n p =
     p\<lparr>fDataInput :=
         Some (fold (\<lambda>i s. w s (buffer_slice (fBuffer p) (i * packetSize) (nat (actual_length (descs ! i)))))
                 (filter (\<lambda>i. status (descs ! i) = B_OK \<and> actual_length (descs ! i) > 0) [0..<n]) s),
       fPacketSuccessCount :=
         fPacketSuccessCount p
           + of_nat (length (filter (\<lambda>i. status (descs ! i) = B_OK \<and> actual_length (descs ! i) > 0) [0..<n])),
       fPacketErrorCount :=
         fPacketErrorCount p + of_nat (length (filter (\<lambda>i. status (descs ! i) \<noteq> B_OK) [0..<n]))\<rparr>"
proof -
  have slot: "fBufferLen p div n = packetSize" using assms(2,3) by simp
  have fw: "filter (forwarded (fBufferLen p) packetSize descs) [0..<n]
              = filter (\<lambda>i. status (descs ! i) = B_OK \<and> actual_length (descs ! i) > 0) [0..<n]"
  proof (rule filter_cong [OF refl])
    fix i assume "i \<in> set [0..<n]"
    then have i: "i < n" by simp
    with assms(4) have "actual_length (descs ! i) \<le> int packetSize" by auto
    from forwarded_in_slot [OF i assms(3) this]
    show "forwarded (fBufferLen p) packetSize descs i
            = (status (descs ! i) = B_OK \<and> actual_length (descs ! i) > 0)" .
  qed
  have fl: "failed descs = (\<lambda>i. status (descs ! i) \<noteq> B_OK)"
    by (rule ext) (simp add: failed_def)
  from fold_process_descriptor [OF assms(1), of w packetSize descs "[0..<n]"]
  show ?thesis
    unfolding fw fl using assms(1) slot by (simp add: process_transfer_def Let_def)
qed

theorem iso_descriptors_processed_witness:
  "process_transfer log_write
     [\<lparr>request_length = 4, actual_length = 3, status = B_OK\<rparr>,
      \<lparr>request_length = 4, actual_length = 4, status = B_ERROR\<rparr>,
      \<lparr>request_length = 4, actual_length = 0, status = B_OK\<rparr>,
      \<lparr>request_length = 4, actual_length = 2, status = B_OK\<rparr>] 4 pump0
   = pump0\<lparr>fDataInput := Some [[0, 1, 2], [12, 13]],
            fPacketSuccessCount := 2, fPacketErrorCount := 1\<rparr>"
proof -
  define descs where "descs =
     [\<lparr>request_length = 4, actual_length = 3, status = B_OK\<rparr>,
      \<lparr>request_length = 4, actual_length = 4, status = B_ERROR\<rparr>,
      \<lparr>request_length = 4, actual_length = 0, status = B_OK\<rparr>,
      \<lparr>request_length = 4, actual_length = 2, status = B_OK\<rparr>]"
  have s: "fDataInput pump0 = Some []" by (simp add: pump0_def)
  have len: "fBufferLen pump0 = 4 * 4" by (simp add: pump0_def)
  have ds: "\<forall>i<4. request_length (descs ! i) = 4
               \<and> actual_length (descs ! i) \<le> int (request_length (descs ! i))"
  proof (intro allI impI)
    fix i :: nat assume "i < 4"
    then have "i = 0 \<or> i = 1 \<or> i = 2 \<or> i = 3" by arith
    then show "request_length (descs ! i) = 4
               \<and> actual_length (descs ! i) \<le> int (request_length (descs ! i))"
      by (auto simp: descs_def)
  qed
  from iso_descriptors_processed [OF s _ len ds, of log_write]
  show ?thesis
    unfolding descs_def
    by (simp add: pump0_def log_write_def buffer_slice_def upt_rec [of _ "numeral _"])
qed

section \<open>Proofs: malformed packet headers\<close>

text \<open>
  Claim C5 (as amended). A packet with a malformed header makes \<open>Write\<close> return \<open>B_ERROR\<close>;
  the packet is dropped and counted (\<open>fPacketsThisFrame\<close> and the static header-error
  counter), and nothing else of the state changes: fill buffer, fill position, current
  frame and queue are as before. With a well-formed header \<open>Write\<close> returns the length of
  the packet.
\<close>

theorem write_malformed_header:
  "(header_invalid buf \<longrightarrow>
      Write d buf = (Inl B_ERROR, d\<lparr>fPacketsThisFrame := fPacketsThisFrame d + 1,
                                    sHeaderErrors := sHeaderErrors d + 1\<rparr>)
      \<and> fFixedBuffer (snd (Write d buf)) = fFixedBuffer d
      \<and> fFixedBufferPos (snd (Write d buf)) = fFixedBufferPos d
      \<and> fInputBuffer (snd (Write d buf)) = fInputBuffer d
      \<and> fCurrentFrame (snd (Write d buf)) = fCurrentFrame d
      \<and> fFrames (snd (Write d buf)) = fFrames d)
   \<and> (\<not> header_invalid buf \<longrightarrow> fst (Write d buf) = Inr (length buf))"
proof (intro conjI impI)
  assume "\<not> header_invalid buf"
  then show "fst (Write d buf) = Inr (length buf)"
    by (simp add: Write_def Let_def split: option.splits prod.splits)
qed (simp_all add: Write_def Let_def)

theorem write_malformed_header_witness:
  "header_invalid [0x0C, 0x00]
   \<and> Write (UVCDeframer_new None) [0x0C, 0x00]
       = (Inl B_ERROR, (UVCDeframer_new None)\<lparr>fPacketsThisFrame := 1, sHeaderErrors := 1\<rparr>)
   \<and> \<not> header_invalid [0x02, 0x00, 0x07]
   \<and> fst (Write (UVCDeframer_new None) [0x02, 0x00, 0x07]) = Inr 3"
  using write_malformed_header [of "[0x0C, 0x00]" "UVCDeframer_new None"]
    write_malformed_header [of "[0x02, 0x00, 0x07]" "UVCDeframer_new None"]
  by (simp add: header_invalid_def UVCDeframer_new_def)

text \<open>
  The claim as first stated fails: for a header length of 12 in a packet of 2 bytes the
  caller gets \<open>B_ERROR\<close>.
\<close>

theorem write_malformed_header_counterexample:
  "header_invalid [0x0C, 0x00] \<and> fst (Write (UVCDeframer_new None) [0x0C, 0x00]) = Inl B_ERROR"
  by (simp add: Write_def header_invalid_def Let_def)


section \<open>Proofs: the bounded queue of ready frames\<close>

text \<open>
  Claim C6. In every reachable state the queue holds at most \<open>MAXFRAMEBUF = 8\<close> frames.
  A packet with payload that arrives when there is no current frame and the queue is
  full is dropped: \<open>Write\<close> returns its length, counts one overflow, and neither
  allocates (pool and pool counters are unchanged) nor publishes (queue, completed-frame
  counter and semaphore are unchanged).
\<close>

theorem ready_queue_bounded:
  assumes "reachable d"
  shows "length (fFrames d) \<le> MAXFRAMEBUF \<and> MAXFRAMEBUF = 8
     \<and> (\<forall>buf. \<not> header_invalid buf \<and> payload buf \<noteq> [] \<and> fCurrentFrame d = None
              \<and> length (fFrames d) = MAXFRAMEBUF \<longrightarrow>
          fst (Write d buf) = Inr (length buf)
          \<and> fQueueOverflows (snd (Write d buf)) = fQueueOverflows d + 1
          \<and> fFrames (snd (Write d buf)) = fFrames d
          \<and> fCurrentFrame (snd (Write d buf)) = None
          \<and> fFramePool (snd (Write d buf)) = fFramePool d
          \<and> fPoolHits (snd (Write d buf)) = fPoolHits d
          \<and> fPoolMisses (snd (Write d buf)) = fPoolMisses d
          \<and> fFramesCompleted (snd (Write d buf)) = fFramesCompleted d
          \<and> fFrameSem (snd (Write d buf)) = fFrameSem d)"
proof (intro conjI allI impI)
  from reachable_queue_inv [OF assms] show "length (fFrames d) \<le> MAXFRAMEBUF"
    by (simp add: queue_inv_def)
  show "MAXFRAMEBUF = 8" by (simp add: MAXFRAMEBUF_def)
next
  fix buf
  assume a: "\<not> header_invalid buf \<and> payload buf \<noteq> [] \<and> fCurrentFrame d = None
              \<and> length (fFrames d) = MAXFRAMEBUF"
  have e: "fExpectedFrameSize d > 0 \<or> fInputBuffer d = []"
    using reachable_queue_inv [OF assms] by (simp add: queue_inv_def)
  from a have cur: "fCurrentFrame d = None" and full: "MAXFRAMEBUF \<le> length (fFrames d)"
    and hv: "\<not> header_invalid buf" and pl: "payload buf \<noteq> []" by simp_all
  note qf = Write_queue_full [OF e cur full hv pl]
  show "fst (Write d buf) = Inr (length buf)" using qf(1) by simp
  show "fQueueOverflows (snd (Write d buf)) = fQueueOverflows d + 1" by (rule qf(5))
  show "fFrames (snd (Write d buf)) = fFrames d" by (rule qf(2))
  show "fCurrentFrame (snd (Write d buf)) = None" by (rule qf(3))
  show "fFramePool (snd (Write d buf)) = fFramePool d" by (rule qf(6))
  show "fPoolHits (snd (Write d buf)) = fPoolHits d" by (rule qf(7))
  show "fPoolMisses (snd (Write d buf)) = fPoolMisses d" by (rule qf(8))
  show "fFramesCompleted (snd (Write d buf)) = fFramesCompleted d" by (rule qf(9))
  show "fFrameSem (snd (Write d buf)) = fFrameSem d" by (rule qf(10))
qed

theorem ready_queue_bounded_witness:
  "length (fFrames (writes (UVCDeframer_new None)
      [[2, 2, 0xAA], [2, 2, 0xAA], [2, 2, 0xAA], [2, 2, 0xAA], [2, 2, 0xAA], [2, 2, 0xAA], [2, 2, 0xAA], [2, 2, 0xAA]])) = 8
   \<and> fQueueOverflows (writes (UVCDeframer_new None)
      [[2, 2, 0xAA], [2, 2, 0xAA], [2, 2, 0xAA], [2, 2, 0xAA], [2, 2, 0xAA], [2, 2, 0xAA], [2, 2, 0xAA], [2, 2, 0xAA],
       [2, 2, 0xAA]]) = 1
   \<and> length (fFrames (writes (UVCDeframer_new None)
      [[2, 2, 0xAA], [2, 2, 0xAA], [2, 2, 0xAA], [2, 2, 0xAA], [2, 2, 0xAA], [2, 2, 0xAA], [2, 2, 0xAA], [2, 2, 0xAA],
       [2, 2, 0xAA]])) = 8"
proof -
  define d where "d = writes (UVCDeframer_new None)
      [[2, 2, 0xAA], [2, 2, 0xAA], [2, 2, 0xAA], [2, 2, 0xAA], [2, 2, 0xAA], [2, 2, 0xAA], [2, 2, 0xAA], [2, 2, 0xAA]]"
  have r: "reachable d" unfolding d_def by (rule reachable_writes) (rule reachable.r_new)
  have st: "fCurrentFrame d = None" "length (fFrames d) = 8" "fQueueOverflows d = 0"
    unfolding d_def by (simp_all add: deframer_eval)
  have pk: "\<not> header_invalid [2, 2, 0xAA] \<and> payload [2, 2, 0xAA] \<noteq> [] \<and> fCurrentFrame d = None
              \<and> length (fFrames d) = MAXFRAMEBUF"
    using st by (simp add: header_invalid_def payload_def MAXFRAMEBUF_def)
  note th = ready_queue_bounded [OF r]
  note dr = th [THEN conjunct2, THEN conjunct2, THEN spec [where x = "[2, 2, 0xAA]"], THEN mp, OF pk]
  have w: "writes (UVCDeframer_new None)
      [[2, 2, 0xAA], [2, 2, 0xAA], [2, 2, 0xAA], [2, 2, 0xAA], [2, 2, 0xAA], [2, 2, 0xAA], [2, 2, 0xAA], [2, 2, 0xAA],
       [2, 2, 0xAA]] = snd (Write d [2, 2, 0xAA])"
    unfolding d_def by simp
  show ?thesis unfolding w d_def [symmetric] using dr st by simp
qed

section \<open>Proofs: alternate selection\<close>

lemma mask11: "(0x7FF :: 32 word) = mask 11"
  by (simp add: mask_eq_decr_exp)

lemma mask2: "(0x3 :: 32 word) = mask 2"
  by (simp add: mask_eq_decr_exp)

lemma unat_ucast_16_32: "unat (ucast (raw :: 16 word) :: 32 word) = unat raw"
proof -
  have "unat raw < 2 ^ 16" using unsigned_less [of raw, where ?'a = nat] by simp
  then have "unat raw < 2 ^ 32" by simp
  then show ?thesis by (simp add: unsigned_ucast_eq take_bit_nat_eq_self)
qed

lemma unat_basePacketSize: "unat (basePacketSize raw) = unat raw mod 2048"
  unfolding basePacketSize_def mask11
  by (simp add: take_bit_eq_mask [symmetric] take_bit_eq_mod unat_mod unat_ucast_16_32)

lemma and3_le: "unat ((x :: 32 word) AND 0x3) = unat x mod 4"
  unfolding mask2
  by (simp add: take_bit_eq_mask [symmetric] take_bit_eq_mod unat_mod)

lemma unat_transactions: "unat (transactions raw) = unat raw div 2048 mod 4 + 1"
proof -
  have a: "unat (drop_bit 11 (ucast raw :: 32 word) AND 0x3) = unat raw div 2048 mod 4"
    by (simp add: and3_le drop_bit_eq_div unat_div unat_ucast_16_32)
  have "unat (drop_bit 11 (ucast raw :: 32 word) AND 0x3) + unat (1 :: 32 word) < 2 ^ 32"
    unfolding a by simp
  then have "unat ((drop_bit 11 (ucast raw :: 32 word) AND 0x3) + 1) =
      unat (drop_bit 11 (ucast raw :: 32 word) AND 0x3) + unat (1 :: 32 word)"
    by (simp add: unat_add_lem [THEN iffD1])
  then show ?thesis using a by (simp add: transactions_def)
qed

lemma unat_base_times_transactions:
  "unat (basePacketSize raw * transactions raw) = unat (basePacketSize raw) * unat (transactions raw)"
proof -
  have "unat (basePacketSize raw) < 2048" by (simp add: unat_basePacketSize)
  moreover have "unat (transactions raw) \<le> 4" by (simp add: unat_transactions)
  ultimately have "unat (basePacketSize raw) * unat (transactions raw) \<le> 2048 * 4"
    by (intro mult_mono) simp_all
  then have "unat (basePacketSize raw) * unat (transactions raw) < 2 ^ 32" by simp
  then show ?thesis by (simp add: unat_mult_lem [THEN iffD1])
qed


lemma scan_endpoints_props:
  assumes "scan_endpoints allow i eps j (b0, a0, e0) = (b, a, e)"
  shows "b0 \<le> b
    \<and> (\<forall>k<length eps. eligible allow (eps ! k) \<longrightarrow> effectiveBandwidth allow (MaxPacketSize (eps ! k)) \<le> b)
    \<and> ((b, a, e) = (b0, a0, e0)
        \<or> (a = i \<and> j \<le> e \<and> e - j < length eps \<and> eligible allow (eps ! (e - j))
            \<and> b = effectiveBandwidth allow (MaxPacketSize (eps ! (e - j))) \<and> b \<noteq> 0))"
  using assms
proof (induction eps arbitrary: j b0 a0 e0)
  case Nil
  then show ?case by simp
next
  case (Cons ep eps)
  let ?eff = "effectiveBandwidth allow (MaxPacketSize ep)"
  show ?case
  proof (cases "eligible allow ep \<and> ?eff > b0")
    case True
    then have r: "scan_endpoints allow i eps (j + 1) (?eff, i, j) = (b, a, e)"
      using Cons.prems by (auto simp: eligible_def)
    note ih = Cons.IH [OF r]
    have nz: "?eff \<noteq> 0" using True by (auto simp: word_gt_0 intro: word_neq_0_conv [THEN iffD2])
    have all: "\<forall>k<length (ep # eps). eligible allow ((ep # eps) ! k)
        \<longrightarrow> effectiveBandwidth allow (MaxPacketSize ((ep # eps) ! k)) \<le> b"
    proof (intro allI impI)
      fix k assume "k < length (ep # eps)" "eligible allow ((ep # eps) ! k)"
      then show "effectiveBandwidth allow (MaxPacketSize ((ep # eps) ! k)) \<le> b"
        using ih by (cases k) auto
    qed
    have sel: "a = i \<and> j \<le> e \<and> e - j < length (ep # eps) \<and> eligible allow ((ep # eps) ! (e - j))
            \<and> b = effectiveBandwidth allow (MaxPacketSize ((ep # eps) ! (e - j))) \<and> b \<noteq> 0"
    proof (cases "(b, a, e) = (?eff, i, j)")
      case True
      then show ?thesis using \<open>eligible allow ep \<and> ?eff > b0\<close> nz by simp
    next
      case False
      with ih have s: "a = i" "j + 1 \<le> e" "e - (j + 1) < length eps" "eligible allow (eps ! (e - (j + 1)))"
        "b = effectiveBandwidth allow (MaxPacketSize (eps ! (e - (j + 1))))" "b \<noteq> 0"
        by auto
      from s(2) have "e - j = Suc (e - (j + 1))" by simp
      with s show ?thesis by simp
    qed
    have "b0 \<le> b" using ih True by (auto simp: less_imp_le order_trans [of b0 ?eff b])
    with all sel show ?thesis by blast
  next
    case False
    then have r: "scan_endpoints allow i eps (j + 1) (b0, a0, e0) = (b, a, e)"
      using Cons.prems by (auto simp: eligible_def split: if_splits)
    note ih = Cons.IH [OF r]
    have all: "\<forall>k<length (ep # eps). eligible allow ((ep # eps) ! k)
        \<longrightarrow> effectiveBandwidth allow (MaxPacketSize ((ep # eps) ! k)) \<le> b"
    proof (intro allI impI)
      fix k assume k: "k < length (ep # eps)" "eligible allow ((ep # eps) ! k)"
      show "effectiveBandwidth allow (MaxPacketSize ((ep # eps) ! k)) \<le> b"
      proof (cases k)
        case 0
        with k False have "?eff \<le> b0" by (simp add: not_less)
        with ih 0 show ?thesis by (auto intro: order_trans)
      next
        case (Suc k')
        with k ih show ?thesis by auto
      qed
    qed
    have sel: "(b, a, e) = (b0, a0, e0) \<or>
          (a = i \<and> j \<le> e \<and> e - j < length (ep # eps) \<and> eligible allow ((ep # eps) ! (e - j))
            \<and> b = effectiveBandwidth allow (MaxPacketSize ((ep # eps) ! (e - j))) \<and> b \<noteq> 0)"
    proof (cases "(b, a, e) = (b0, a0, e0)")
      case True
      then show ?thesis by simp
    next
      case False
      with ih have s: "a = i" "j + 1 \<le> e" "e - (j + 1) < length eps" "eligible allow (eps ! (e - (j + 1)))"
        "b = effectiveBandwidth allow (MaxPacketSize (eps ! (e - (j + 1))))" "b \<noteq> 0"
        by auto
      from s(2) have "e - j = Suc (e - (j + 1))" by simp
      with s show ?thesis by simp
    qed
    from ih all sel show ?thesis by blast
  qed
qed

lemma scan_alternates_props:
  assumes "scan_alternates allow alts i (b0, a0, e0) = (b, a, e)"
  shows "b0 \<le> b
    \<and> (\<forall>k<length alts. \<forall>l<length (alts ! k). eligible allow (alts ! k ! l)
           \<longrightarrow> effectiveBandwidth allow (MaxPacketSize (alts ! k ! l)) \<le> b)
    \<and> ((b, a, e) = (b0, a0, e0)
        \<or> (i \<le> a \<and> a - i < length alts \<and> e < length (alts ! (a - i))
            \<and> eligible allow (alts ! (a - i) ! e)
            \<and> b = effectiveBandwidth allow (MaxPacketSize (alts ! (a - i) ! e)) \<and> b \<noteq> 0))"
  using assms
proof (induction alts arbitrary: i b0 a0 e0)
  case Nil
  then show ?case by simp
next
  case (Cons alt alts)
  obtain b1 a1 e1 where s1: "scan_endpoints allow i alt 0 (b0, a0, e0) = (b1, a1, e1)"
    by (cases "scan_endpoints allow i alt 0 (b0, a0, e0)") auto
  then have r: "scan_alternates allow alts (i + 1) (b1, a1, e1) = (b, a, e)"
    using Cons.prems by simp
  note p1 = scan_endpoints_props [OF s1]
  note ih = Cons.IH [OF r]
  have le: "b0 \<le> b" using p1 ih by (auto intro: order_trans)
  have all: "\<forall>k<length (alt # alts). \<forall>l<length ((alt # alts) ! k). eligible allow ((alt # alts) ! k ! l)
           \<longrightarrow> effectiveBandwidth allow (MaxPacketSize ((alt # alts) ! k ! l)) \<le> b"
  proof (intro allI impI)
    fix k l assume k: "k < length (alt # alts)" "l < length ((alt # alts) ! k)"
      "eligible allow ((alt # alts) ! k ! l)"
    show "effectiveBandwidth allow (MaxPacketSize ((alt # alts) ! k ! l)) \<le> b"
    proof (cases k)
      case 0
      with k p1 have "effectiveBandwidth allow (MaxPacketSize (alt ! l)) \<le> b1" by auto
      with ih 0 show ?thesis by (auto intro: order_trans)
    next
      case (Suc k')
      with k ih show ?thesis by auto
    qed
  qed
  have sel: "(b, a, e) = (b0, a0, e0)
        \<or> (i \<le> a \<and> a - i < length (alt # alts) \<and> e < length ((alt # alts) ! (a - i))
            \<and> eligible allow ((alt # alts) ! (a - i) ! e)
            \<and> b = effectiveBandwidth allow (MaxPacketSize ((alt # alts) ! (a - i) ! e)) \<and> b \<noteq> 0)"
  proof (cases "(b, a, e) = (b1, a1, e1)")
    case True
    show ?thesis
    proof (cases "(b1, a1, e1) = (b0, a0, e0)")
      case eq: True
      with True show ?thesis by simp
    next
      case False
      with p1 have "a1 = i" "e1 < length alt" "eligible allow (alt ! e1)"
        "b1 = effectiveBandwidth allow (MaxPacketSize (alt ! e1))" "b1 \<noteq> 0"
        by auto
      with True show ?thesis by simp
    qed
  next
    case False
    with ih have s: "i + 1 \<le> a" "a - (i + 1) < length alts" "e < length (alts ! (a - (i + 1)))"
      "eligible allow (alts ! (a - (i + 1)) ! e)"
      "b = effectiveBandwidth allow (MaxPacketSize (alts ! (a - (i + 1)) ! e))" "b \<noteq> 0"
      by auto
    from s(1) have "a - i = Suc (a - (i + 1))" by simp
    with s show ?thesis by simp
  qed
  from le all sel show ?case by blast
qed


lemma unat_effectiveBandwidth:
  "unat (effectiveBandwidth allow raw) =
     (if 1 < unat (transactions raw) \<and> allow
      then unat (basePacketSize raw) * unat (transactions raw) else unat (basePacketSize raw))"
  by (simp add: effectiveBandwidth_def unat_base_times_transactions word_less_nat_alt)

lemma effectiveBandwidth_bound: "unat (effectiveBandwidth allow raw) \<le> 8188"
proof -
  have "unat (basePacketSize raw) \<le> 2047" by (simp add: unat_basePacketSize)
  moreover have "unat (transactions raw) \<le> 4" by (simp add: unat_transactions)
  ultimately have "unat (basePacketSize raw) * unat (transactions raw) \<le> 2047 * 4"
    by (intro mult_mono) simp_all
  with \<open>unat (basePacketSize raw) \<le> 2047\<close> show ?thesis
    by (simp add: unat_effectiveBandwidth)
qed

lemma buffer_size_no_overflow:
  assumes "unat (b :: 32 word) \<le> 8188"
  shows "unat (b * of_nat kInitialPackets) = unat b * 32"
proof -
  have "unat b * unat (32 :: 32 word) < 2 ^ 32" using assms by simp
  then have "unat (b * 32) = unat b * unat (32 :: 32 word)" by (simp add: unat_mult_lem [THEN iffD1])
  then show ?thesis by (simp add: kInitialPackets_def)
qed

text \<open>
  Claim C7 (as amended). The max-packet field decodes into bits 0-10 and bits 11-12
  plus 1. The scan skips every endpoint that is not isochronous input, and every
  endpoint with more than one transaction when high bandwidth is not permitted; the
  others count with base size times transactions. The chosen endpoint is one of them and
  none of them has a larger effective bandwidth; without one the function fails. On
  success the packet size is that bandwidth and the buffer is 32 times as long. The
  payload size negotiated by commit has no influence on any of it.
\<close>

theorem select_best_alternate:
  assumes "hasDevice t" and "streaming t = Some alts"
    and "scan_alternates (allowHighBandwidth t) alts 0 (0, 0, 0) = (best, ai, ei)"
  shows "(\<forall>raw allow. unat (basePacketSize raw) = unat raw mod 2048
            \<and> unat (transactions raw) = unat raw div 2048 mod 4 + 1
            \<and> unat (effectiveBandwidth allow raw) =
                (if 1 < unat (transactions raw) \<and> allow
                 then unat (basePacketSize raw) * unat (transactions raw)
                 else unat (basePacketSize raw)))
    \<and> (\<forall>i<length alts. \<forall>j<length (alts ! i). eligible (allowHighBandwidth t) (alts ! i ! j)
           \<longrightarrow> effectiveBandwidth (allowHighBandwidth t) (MaxPacketSize (alts ! i ! j)) \<le> best)
    \<and> (best \<noteq> 0 \<longrightarrow> ai < length alts \<and> ei < length (alts ! ai)
           \<and> eligible (allowHighBandwidth t) (alts ! ai ! ei)
           \<and> best = effectiveBandwidth (allowHighBandwidth t) (MaxPacketSize (alts ! ai ! ei)))
    \<and> (best = 0 \<longrightarrow> SelectBestAlternate t = (B_ERROR, t))
    \<and> (fst (SelectBestAlternate t) = B_OK \<longrightarrow>
           fIsoMaxPacketSize (snd (SelectBestAlternate t)) = best
           \<and> fTransferBufferLen (snd (SelectBestAlternate t)) = unat best * 32
           \<and> fBufferAllocated (snd (SelectBestAlternate t))
           \<and> fCurrentVideoAlternate (snd (SelectBestAlternate t)) = ai
           \<and> fIsoInEndpoint (snd (SelectBestAlternate t)) = Some ei)
    \<and> (\<forall>r. SelectBestAlternate (t\<lparr>negotiatedMaxPayloadTransferSize := r\<rparr>) =
           (fst (SelectBestAlternate t),
            (snd (SelectBestAlternate t))\<lparr>negotiatedMaxPayloadTransferSize := r\<rparr>))"
proof -
  note sp = scan_alternates_props [OF assms(3)]
  have sel: "best \<noteq> 0 \<longrightarrow> ai < length alts \<and> ei < length (alts ! ai)
           \<and> eligible (allowHighBandwidth t) (alts ! ai ! ei)
           \<and> best = effectiveBandwidth (allowHighBandwidth t) (MaxPacketSize (alts ! ai ! ei))"
    using sp by auto
  have bound: "unat best \<le> 8188"
  proof (cases "best = 0")
    case True
    then show ?thesis by simp
  next
    case False
    with sel effectiveBandwidth_bound show ?thesis by auto
  qed
  note sz = buffer_size_no_overflow [OF bound]
  have dec: "\<forall>raw allow. unat (basePacketSize raw) = unat raw mod 2048
            \<and> unat (transactions raw) = unat raw div 2048 mod 4 + 1
            \<and> unat (effectiveBandwidth allow raw) =
                (if 1 < unat (transactions raw) \<and> allow
                 then unat (basePacketSize raw) * unat (transactions raw)
                 else unat (basePacketSize raw))"
    using unat_basePacketSize unat_transactions unat_effectiveBandwidth by blast
  have all: "\<forall>i<length alts. \<forall>j<length (alts ! i). eligible (allowHighBandwidth t) (alts ! i ! j)
           \<longrightarrow> effectiveBandwidth (allowHighBandwidth t) (MaxPacketSize (alts ! i ! j)) \<le> best"
    using sp by blast
  have err: "best = 0 \<longrightarrow> SelectBestAlternate t = (B_ERROR, t)"
    using assms by (simp add: SelectBestAlternate_def)
  have ok: "fst (SelectBestAlternate t) = B_OK \<longrightarrow>
           fIsoMaxPacketSize (snd (SelectBestAlternate t)) = best
           \<and> fTransferBufferLen (snd (SelectBestAlternate t)) = unat best * 32
           \<and> fBufferAllocated (snd (SelectBestAlternate t))
           \<and> fCurrentVideoAlternate (snd (SelectBestAlternate t)) = ai
           \<and> fIsoInEndpoint (snd (SelectBestAlternate t)) = Some ei"
    using assms sz by (auto simp: SelectBestAlternate_def Let_def split: if_splits)
  have al: "allowHighBandwidth (t\<lparr>negotiatedMaxPayloadTransferSize := r\<rparr>) = allowHighBandwidth t" for r
    by (simp add: allowHighBandwidth_def)
  have indep: "\<forall>r. SelectBestAlternate (t\<lparr>negotiatedMaxPayloadTransferSize := r\<rparr>) =
           (fst (SelectBestAlternate t),
            (snd (SelectBestAlternate t))\<lparr>negotiatedMaxPayloadTransferSize := r\<rparr>)"
    using assms by (auto simp: SelectBestAlternate_def Let_def al split: if_splits)
  from dec all sel err ok indep show ?thesis by blast
qed

lemma transport0_scan:
  "scan_alternates True
     [[], [\<lparr>IsIsochronous = True, IsInput = True, MaxPacketSize = 0x0200\<rparr>],
      [\<lparr>IsIsochronous = True, IsInput = True, MaxPacketSize = 0x1400\<rparr>]] 0 (0, 0, 0) = (3072, 2, 0)"
  by (simp add: effectiveBandwidth_def basePacketSize_def transactions_def)

theorem select_best_alternate_witness:
  "fst (SelectBestAlternate transport0) = B_OK
   \<and> fIsoMaxPacketSize (snd (SelectBestAlternate transport0)) = 3072
   \<and> fTransferBufferLen (snd (SelectBestAlternate transport0)) = 98304
   \<and> fCurrentVideoAlternate (snd (SelectBestAlternate transport0)) = 2"
proof -
  have d: "hasDevice transport0" by (simp add: transport0_def)
  have s: "streaming transport0 = Some [[],
      [\<lparr>IsIsochronous = True, IsInput = True, MaxPacketSize = 0x0200\<rparr>],
      [\<lparr>IsIsochronous = True, IsInput = True, MaxPacketSize = 0x1400\<rparr>]]"
    by (simp add: transport0_def)
  have sc: "scan_alternates (allowHighBandwidth transport0)
     [[], [\<lparr>IsIsochronous = True, IsInput = True, MaxPacketSize = 0x0200\<rparr>],
      [\<lparr>IsIsochronous = True, IsInput = True, MaxPacketSize = 0x1400\<rparr>]] 0 (0, 0, 0) = (3072, 2, 0)"
    using transport0_scan by (simp add: transport0_def allowHighBandwidth_def ShouldUseHighBandwidth_def)
  have ok: "fst (SelectBestAlternate transport0) = B_OK"
    using transport0_scan
    by (simp add: SelectBestAlternate_def transport0_def Let_def kInitialPackets_def
          allowHighBandwidth_def ShouldUseHighBandwidth_def)
  from select_best_alternate [OF d s sc] ok show ?thesis by simp
qed

text \<open>
  The claim as first stated fails: with high bandwidth known not to work and a negotiated
  payload size of 1024 bytes, the endpoint of 512 bytes is chosen, below what commit
  asked for; and an endpoint of 2 x 1024 bytes is skipped, not counted with its base
  size of 1024 bytes, so that a device with that endpoint alone gets an error.
\<close>

theorem select_ignores_required_counterexample:
  "negotiatedMaxPayloadTransferSize transport0 = 1024
   \<and> \<not> allowHighBandwidth (transport0\<lparr>fHighBandwidthTested := True\<rparr>)
   \<and> fst (SelectBestAlternate (transport0\<lparr>fHighBandwidthTested := True\<rparr>)) = B_OK
   \<and> fIsoMaxPacketSize (snd (SelectBestAlternate (transport0\<lparr>fHighBandwidthTested := True\<rparr>))) = 512
   \<and> fCurrentVideoAlternate (snd (SelectBestAlternate (transport0\<lparr>fHighBandwidthTested := True\<rparr>))) = 1
   \<and> basePacketSize 0x0C00 = 1024 \<and> transactions 0x0C00 = 2
   \<and> fst (SelectBestAlternate (transport0\<lparr>fHighBandwidthTested := True,
           streaming := Some [[\<lparr>IsIsochronous = True, IsInput = True, MaxPacketSize = 0x0C00\<rparr>]]\<rparr>))
       = B_ERROR"
  by (simp add: SelectBestAlternate_def transport0_def Let_def kInitialPackets_def
        effectiveBandwidth_def basePacketSize_def transactions_def
        allowHighBandwidth_def ShouldUseHighBandwidth_def)

section \<open>Proofs: the YUY2 to BGRA conversion on pattern frames\<close>

lemma ready_tables_eq: "tables_wf t \<Longrightarrow> ready_tables t = Initialize gYuvRgbTables"
  by (auto simp: tables_wf_def ready_tables_def Initialize_def gYuvRgbTables_def)

lemma unat_u8_lt: "unat (b :: u8) < 256"
  using unsigned_less [of b, where ?'a = nat] by simp

lemma tables_nth:
  "y_table (Initialize gYuvRgbTables) ! unat (b::u8) = 298 * (int (unat b) - 16)"
  "u_b_table (Initialize gYuvRgbTables) ! unat (b::u8) = 516 * (int (unat b) - 128)"
  "u_g_table (Initialize gYuvRgbTables) ! unat (b::u8) = - 100 * (int (unat b) - 128)"
  "v_r_table (Initialize gYuvRgbTables) ! unat (b::u8) = 409 * (int (unat b) - 128)"
  "v_g_table (Initialize gYuvRgbTables) ! unat (b::u8) = - 208 * (int (unat b) - 128)"
  using unat_u8_lt [of b] by (simp_all add: Initialize_def gYuvRgbTables_def del: upt_Suc)

lemma convert_macropixel_bt601:
  "convert_macropixel (Initialize gYuvRgbTables) y0 u y1 v =
     bt601 (int (unat y0)) (int (unat u)) (int (unat v)) @ bt601 (int (unat y1)) (int (unat u)) (int (unat v))"
  unfolding convert_macropixel_def Let_def tables_nth bt601_def
  by (simp add: drop_bit_eq_div algebra_simps)

lemma black_mp:
  "convert_macropixel (Initialize gYuvRgbTables) 0 0x80 0 0x80 = [0, 0, 0, 255, 0, 0, 0, 255]"
  by (simp add: convert_macropixel_bt601 bt601_def clamp255_def)

lemma white_mp:
  "convert_macropixel (Initialize gYuvRgbTables) 235 128 235 128 = [255, 255, 255, 255, 255, 255, 255, 255]"
  by (simp add: convert_macropixel_bt601 bt601_def clamp255_def)

lemma length_convert_macropixel [simp]: "length (convert_macropixel t y0 u y1 v) = 8"
  by (simp add: convert_macropixel_def Let_def)

lemma pixels_ok_store:
  assumes "pixels_ok Q m dp" "4 dvd dp" "mp_ok Q t src sp"
  shows "pixels_ok Q (store_bytes m dp (convert_macropixel t (src sp) (src (sp + 1)) (src (sp + 2)) (src (sp + 3)))) (dp + 8)"
  unfolding pixels_ok_def
proof (intro allI impI)
  fix i assume i: "i < dp + 8"
  show "Q (i mod 4) (store_bytes m dp (convert_macropixel t (src sp) (src (sp + 1)) (src (sp + 2)) (src (sp + 3))) i)"
  proof (cases "i < dp")
    case True
    then show ?thesis using assms(1) by (simp add: pixels_ok_def store_bytes_def)
  next
    case False
    then have k: "i - dp < 8" using i by simp
    from \<open>4 dvd dp\<close> obtain q where q: "dp = 4 * q" by auto
    have "i = 4 * q + (i - dp)" using False q by simp
    then have "i mod 4 = (4 * q + (i - dp)) mod 4" by simp
    then have "i mod 4 = (i - dp) mod 4" by simp
    with assms(3) k False i show ?thesis
      by (simp add: mp_ok_def store_bytes_def)
  qed
qed

lemma convert_row_pixels:
  assumes "\<forall>j. 2 * j < width - x \<longrightarrow> mp_ok Q t src (sp + 4 * j)"
    and "4 dvd dp" and "pixels_ok Q (conv_dst c) dp" and "x \<le> width" and "even (width - x)"
  shows "pixels_ok Q (conv_dst (convert_row t src c sp dp x width)) (dp + 4 * (width - x))"
  using assms
proof (induction t src c sp dp x width rule: convert_row.induct)
  case (1 t src c sp dp x width)
  show ?case
  proof (cases "x < width")
    case False
    with "1.prems" show ?thesis by (subst convert_row.simps) simp
  next
    case True
    with "1.prems" have two: "x + 2 \<le> width" by (cases "width - x = 1") auto
    let ?c = "\<lparr> conv_dst = store_bytes (conv_dst c) dp
                  (convert_macropixel t (src sp) (src (sp + 1)) (src (sp + 2)) (src (sp + 3))),
               conv_reads = conv_reads c @ [sp, sp + 1, sp + 2, sp + 3] \<rparr>"
    have mp0: "mp_ok Q t src sp" using "1.prems"(1) True by (auto dest: spec [of _ 0])
    have a: "\<forall>j. 2 * j < width - (x + 2) \<longrightarrow> mp_ok Q t src (sp + 4 + 4 * j)"
    proof (intro allI impI)
      fix j assume "2 * j < width - (x + 2)"
      then have "2 * (Suc j) < width - x" by simp
      with "1.prems"(1) have "mp_ok Q t src (sp + 4 * Suc j)" by blast
      then show "mp_ok Q t src (sp + 4 + 4 * j)" by (simp add: add.assoc)
    qed
    have b: "4 dvd dp + 8" using "1.prems"(2) by simp
    have c: "pixels_ok Q (conv_dst ?c) (dp + 8)"
      using pixels_ok_store [OF "1.prems"(3) "1.prems"(2) mp0] by simp
    have d: "even (width - (x + 2))" using "1.prems"(5) two by simp
    have ih: "pixels_ok Q (conv_dst (convert_row t src ?c (sp + 4) (dp + 8) (x + 2) width)) (dp + 8 + 4 * (width - (x + 2)))"
      using "1.IH" [OF True a b c two d] .
    have e: "dp + 8 + 4 * (width - (x + 2)) = dp + 4 * (width - x)" using two by simp
    have eq: "convert_row t src c sp dp x width = convert_row t src ?c (sp + 4) (dp + 8) (x + 2) width"
      using True by (subst convert_row.simps) simp
    show ?thesis using ih unfolding e eq .
  qed
qed

lemma convert_rows_pixels:
  assumes "\<forall>m. 4 * m + 3 < srcSize \<longrightarrow> mp_ok Q t src (4 * m)"
    and "even width" and "0 < width" and "row \<le> height"
    and "pixels_ok Q (conv_dst c) (row * width * 4)"
    and "width * height * 2 \<le> srcSize"
  shows "pixels_ok Q (conv_dst (convert_rows t src srcSize c row width height)) (height * width * 4)"
  using assms
proof (induction t src srcSize c row width height rule: convert_rows.induct)
  case (1 t src srcSize c row width height)
  show ?case
  proof (cases "row < height")
    case False
    with "1.prems" show ?thesis by (subst convert_rows.simps) simp
  next
    case True
    from \<open>even width\<close> obtain w2 where w2: "width = 2 * w2" by (auto elim: evenE)
    have "(row + 1) * (width * 2) \<le> height * (width * 2)"
      using True by (intro mult_le_mono1) simp
    then have inb: "row * (width * 2) + width * 2 \<le> srcSize"
      using "1.prems"(6) by (simp add: algebra_simps)
    let ?c = "convert_row t src c (row * (width * 2)) (row * (width * 4)) 0 width"
    have src_ok: "\<forall>j. 2 * j < width - 0 \<longrightarrow> mp_ok Q t src (row * (width * 2) + 4 * j)"
    proof (intro allI impI)
      fix j assume j: "2 * j < width - 0"
      then have "j < w2" using w2 by simp
      then have "4 * j + 4 \<le> width * 2" using w2 by simp
      then have "4 * (row * w2 + j) + 3 < srcSize" using inb w2 by (simp add: algebra_simps)
      with "1.prems"(1) have "mp_ok Q t src (4 * (row * w2 + j))" by blast
      then show "mp_ok Q t src (row * (width * 2) + 4 * j)" using w2 by (simp add: algebra_simps)
    qed
    have dv: "4 dvd row * (width * 4)" by simp
    have p0: "pixels_ok Q (conv_dst c) (row * (width * 4))" using "1.prems"(5) by (simp add: mult.assoc)
    have "pixels_ok Q (conv_dst ?c) (row * (width * 4) + 4 * (width - 0))"
      using convert_row_pixels [OF src_ok dv p0 _ _] \<open>even width\<close> by simp
    then have p1: "pixels_ok Q (conv_dst ?c) ((row + 1) * width * 4)" by (simp add: algebra_simps)
    have ih: "pixels_ok Q (conv_dst (convert_rows t src srcSize ?c (row + 1) width height)) (height * width * 4)"
      using "1.IH" [OF True refl refl refl refl _ "1.prems"(1) "1.prems"(2) "1.prems"(3) _ p1 "1.prems"(6)] True inb
      by simp
    have eq: "convert_rows t src srcSize c row width height = convert_rows t src srcSize ?c (row + 1) width height"
      using True inb by (subst convert_rows.simps) (simp add: Let_def)
    show ?thesis using ih unfolding eq .
  qed
qed

lemma all_less_8: "(\<forall>k<(8::nat). P k) \<longleftrightarrow> P 0 \<and> P 1 \<and> P 2 \<and> P 3 \<and> P 4 \<and> P 5 \<and> P 6 \<and> P 7"
proof
  assume "\<forall>k<8. P k"
  then show "P 0 \<and> P 1 \<and> P 2 \<and> P 3 \<and> P 4 \<and> P 5 \<and> P 6 \<and> P 7" by simp
next
  assume a: "P 0 \<and> P 1 \<and> P 2 \<and> P 3 \<and> P 4 \<and> P 5 \<and> P 6 \<and> P 7"
  show "\<forall>k<8. P k"
  proof (intro allI impI)
    fix k :: nat assume "k < 8"
    then have "k = 0 \<or> k = 1 \<or> k = 2 \<or> k = 3 \<or> k = 4 \<or> k = 5 \<or> k = 6 \<or> k = 7" by arith
    with a show "P k" by blast
  qed
qed

lemma pattern_frame_mp:
  assumes "yuy2_pattern_frame pat src srcSize" "4 * m + 3 < srcSize"
  shows "src (4 * m) = pat ! 0" "src (4 * m + 1) = pat ! 1" "src (4 * m + 2) = pat ! 2" "src (4 * m + 3) = pat ! 3"
proof -
  have "src (4 * m + k) = pat ! k" if "k < 4" for k
  proof -
    have "4 * m + k < srcSize" using that assms(2) by simp
    then have "src (4 * m + k) = pat ! ((4 * m + k) mod 4)" using assms(1) by (simp add: yuy2_pattern_frame_def)
    then show ?thesis using that by simp
  qed
  from this [of 0] this [of 1] this [of 2] this [of 3]
  show "src (4 * m) = pat ! 0" "src (4 * m + 1) = pat ! 1" "src (4 * m + 2) = pat ! 2" "src (4 * m + 3) = pat ! 3"
    by simp_all
qed

lemma black_frame_mp_ok:
  assumes "yuy2_pattern_frame padPattern src srcSize"
  shows "\<forall>m. 4 * m + 3 < srcSize \<longrightarrow>
           mp_ok (\<lambda>k b. if k = 3 then b = 255 else b \<le> 5) (Initialize gYuvRgbTables) src (4 * m)"
proof (intro allI impI)
  fix m assume "4 * m + 3 < srcSize"
  from pattern_frame_mp [OF assms this]
  show "mp_ok (\<lambda>k b. if k = 3 then b = 255 else b \<le> 5) (Initialize gYuvRgbTables) src (4 * m)"
    by (simp add: mp_ok_def all_less_8 padPattern_def black_mp)
qed

lemma white_frame_mp_ok:
  assumes "yuy2_pattern_frame whitePattern src srcSize"
  shows "\<forall>m. 4 * m + 3 < srcSize \<longrightarrow>
           mp_ok (\<lambda>k b. if k = 3 then b = 255 else 250 \<le> b) (Initialize gYuvRgbTables) src (4 * m)"
proof (intro allI impI)
  fix m assume "4 * m + 3 < srcSize"
  from pattern_frame_mp [OF assms this]
  show "mp_ok (\<lambda>k b. if k = 3 then b = 255 else 250 \<le> b) (Initialize gYuvRgbTables) src (4 * m)"
    by (simp add: mp_ok_def all_less_8 whitePattern_def white_mp)
qed

lemma alpha_mp_ok: "mp_ok (\<lambda>k b. k = 3 \<longrightarrow> b = 255) t src sp"
  by (simp add: mp_ok_def all_less_8 convert_macropixel_def Let_def)

lemma pixels_ok_pixel:
  assumes "pixels_ok Q m (n * 4)" "p < n" "c < 4"
  shows "Q c (m (4 * p + c))"
proof -
  have "4 * p + c < n * 4" using assms(2,3) by simp
  with assms(1) have "Q ((4 * p + c) mod 4) (m (4 * p + c))" unfolding pixels_ok_def by blast
  then show ?thesis using assms(3) by simp
qed

lemma convert_full_frame:
  assumes "tables_wf tabs" "0 < width" "0 < height" "even width"
    and "srcSize = nat width * nat height * 2"
    and "res_dst (ConvertYUY2toRGB32 tabs n (Some dst) (Some src) srcSize width height) = Some out"
    and "\<forall>m. 4 * m + 3 < srcSize \<longrightarrow> mp_ok Q (Initialize gYuvRgbTables) src (4 * m)"
  shows "pixels_ok Q out (nat width * nat height * 4)"
proof -
  have t: "ready_tables tabs = Initialize gYuvRgbTables"
    by (rule ready_tables_eq [OF assms(1)])
  let ?c0 = "\<lparr> conv_dst = dst, conv_reads = diag_reads n srcSize width \<rparr>"
  have out: "out = conv_dst (convert_rows (Initialize gYuvRgbTables) src srcSize ?c0 0 (nat width) (nat height))"
    using assms(2,3,6) t by (simp add: ConvertYUY2toRGB32_def Let_def)
  have ev: "even (nat width)" using assms(2,4) by (simp add: even_nat_iff)
  have "pixels_ok Q (conv_dst (convert_rows (Initialize gYuvRgbTables) src srcSize ?c0 0 (nat width) (nat height)))
          (nat height * nat width * 4)"
    using assms(2,5) by (intro convert_rows_pixels [OF assms(7) ev]) (simp_all add: pixels_ok_def)
  then show ?thesis using out by (simp add: mult.commute)
qed

text \<open>
  Claim C8 (as amended). For a frame of the negotiated dimensions with an even width
  (\<open>srcSize = width * height * 2\<close>, two pixels to a YUY2 macro-pixel), decoding the
  repeated black pattern \<open>{00, 80, 00, 80}\<close> gives B, G and R bytes that are all at
  most 5, decoding the white pattern \<open>Y = 235\<close>, \<open>U = V = 128\<close> gives B, G and R bytes
  that are all at least 250, and whatever the source holds, the alpha byte of every
  output pixel is 255.
\<close>

theorem yuy2_black_white_alpha:
  assumes "tables_wf tabs" "0 < width" "0 < height" "even width"
    and "srcSize = nat width * nat height * 2"
    and "res_dst (ConvertYUY2toRGB32 tabs n (Some dst) (Some src) srcSize width height) = Some out"
  shows "(yuy2_pattern_frame padPattern src srcSize \<longrightarrow>
            (\<forall>p < nat width * nat height. out (4 * p) \<le> 5 \<and> out (4 * p + 1) \<le> 5 \<and> out (4 * p + 2) \<le> 5))
       \<and> (yuy2_pattern_frame whitePattern src srcSize \<longrightarrow>
            (\<forall>p < nat width * nat height. 250 \<le> out (4 * p) \<and> 250 \<le> out (4 * p + 1) \<and> 250 \<le> out (4 * p + 2)))
       \<and> (\<forall>p < nat width * nat height. out (4 * p + 3) = 255)"
proof (intro conjI impI allI)
  fix p assume bl: "yuy2_pattern_frame padPattern src srcSize" and p: "p < nat width * nat height"
  from convert_full_frame [OF assms black_frame_mp_ok [OF bl]]
  have ok: "pixels_ok (\<lambda>k b. if k = 3 then b = 255 else b \<le> 5) out (nat width * nat height * 4)" .
  from pixels_ok_pixel [OF ok p, of 0] show "out (4 * p) \<le> 5" by simp
  from pixels_ok_pixel [OF ok p, of 1] show "out (4 * p + 1) \<le> 5" by simp
  from pixels_ok_pixel [OF ok p, of 2] show "out (4 * p + 2) \<le> 5" by simp
next
  fix p assume wh: "yuy2_pattern_frame whitePattern src srcSize" and p: "p < nat width * nat height"
  from convert_full_frame [OF assms white_frame_mp_ok [OF wh]]
  have ok: "pixels_ok (\<lambda>k b. if k = 3 then b = 255 else 250 \<le> b) out (nat width * nat height * 4)" .
  from pixels_ok_pixel [OF ok p, of 0] show "250 \<le> out (4 * p)" by simp
  from pixels_ok_pixel [OF ok p, of 1] show "250 \<le> out (4 * p + 1)" by simp
  from pixels_ok_pixel [OF ok p, of 2] show "250 \<le> out (4 * p + 2)" by simp
next
  fix p assume p: "p < nat width * nat height"
  have "\<forall>m. 4 * m + 3 < srcSize \<longrightarrow> mp_ok (\<lambda>k b. k = 3 \<longrightarrow> b = 255) (Initialize gYuvRgbTables) src (4 * m)"
    by (simp add: alpha_mp_ok)
  from convert_full_frame [OF assms this]
  have ok: "pixels_ok (\<lambda>k b. k = 3 \<longrightarrow> b = 255) out (nat width * nat height * 4)" .
  from pixels_ok_pixel [OF ok p, of 3] show "out (4 * p + 3) = 255" by simp
qed

theorem yuy2_black_white_alpha_witness:
  "list_all (\<lambda>b. b \<le> 5)
     (map (the (res_dst (ConvertYUY2toRGB32 gYuvRgbTables 0 (Some (\<lambda>i. 0x55))
                  (Some (\<lambda>i. padPattern ! (i mod 4))) 8 2 2))) [0, 1, 2, 12, 13, 14])
   \<and> list_all (\<lambda>b. 250 \<le> b)
     (map (the (res_dst (ConvertYUY2toRGB32 gYuvRgbTables 0 (Some (\<lambda>i. 0x55))
                  (Some (\<lambda>i. whitePattern ! (i mod 4))) 8 2 2))) [0, 1, 2, 12, 13, 14])
   \<and> map (the (res_dst (ConvertYUY2toRGB32 gYuvRgbTables 0 (Some (\<lambda>i. 0x55))
                  (Some (\<lambda>i. whitePattern ! (i mod 4))) 8 2 2))) [3, 7, 11, 15]
       = [255, 255, 255, 255]"
proof -
  have wf: "tables_wf gYuvRgbTables" by (simp add: tables_wf_def)
  have sz: "(8::nat) = nat 2 * nat 2 * 2" by simp
  define outb where "outb = the (res_dst (ConvertYUY2toRGB32 gYuvRgbTables 0 (Some (\<lambda>i. 0x55))
               (Some (\<lambda>i. padPattern ! (i mod 4))) 8 2 2))"
  define outw where "outw = the (res_dst (ConvertYUY2toRGB32 gYuvRgbTables 0 (Some (\<lambda>i. 0x55))
               (Some (\<lambda>i. whitePattern ! (i mod 4))) 8 2 2))"
  have ob: "res_dst (ConvertYUY2toRGB32 gYuvRgbTables 0 (Some (\<lambda>i. 0x55))
               (Some (\<lambda>i. padPattern ! (i mod 4))) 8 2 2) = Some outb"
    by (simp add: outb_def ConvertYUY2toRGB32_def Let_def)
  have ow: "res_dst (ConvertYUY2toRGB32 gYuvRgbTables 0 (Some (\<lambda>i. 0x55))
               (Some (\<lambda>i. whitePattern ! (i mod 4))) 8 2 2) = Some outw"
    by (simp add: outw_def ConvertYUY2toRGB32_def Let_def)
  have pb: "yuy2_pattern_frame padPattern (\<lambda>i. padPattern ! (i mod 4)) 8"
    and pw: "yuy2_pattern_frame whitePattern (\<lambda>i. whitePattern ! (i mod 4)) 8"
    by (simp_all add: yuy2_pattern_frame_def)
  from yuy2_black_white_alpha [OF wf _ _ _ sz ob] pb
  have b: "\<forall>p < 4. outb (4 * p) \<le> 5 \<and> outb (4 * p + 1) \<le> 5 \<and> outb (4 * p + 2) \<le> 5"
    by simp
  from yuy2_black_white_alpha [OF wf _ _ _ sz ow] pw
  have w: "\<forall>p < 4. 250 \<le> outw (4 * p) \<and> 250 \<le> outw (4 * p + 1) \<and> 250 \<le> outw (4 * p + 2)"
    and wa: "\<forall>p < 4. outw (4 * p + 3) = 255"
    by simp_all
  from b [rule_format, of 0] b [rule_format, of 3]
    w [rule_format, of 0] w [rule_format, of 3]
    wa [rule_format, of 0] wa [rule_format, of 1] wa [rule_format, of 2] wa [rule_format, of 3]
  show ?thesis unfolding outb_def [symmetric] outw_def [symmetric] by (simp add: numeral_2_eq_2)
qed

text \<open>
  The claim as first stated fails for an odd width. The inner loop converts two pixels
  from four source bytes, so the last pixel of a row of 3 pixels takes its V byte from
  the byte at offset 7, past the 6 bytes of the frame: on a black frame followed by
  bytes \<open>FF\<close> the pixel has R = 184, followed by bytes \<open>00\<close> it has G = 85.
\<close>

theorem yuy2_odd_width_counterexample:
  "yuy2_pattern_frame padPattern (\<lambda>i. if i < 6 then padPattern ! (i mod 4) else 0xFF) 6
   \<and> map (the (res_dst (ConvertYUY2toRGB32 gYuvRgbTables 5 (Some (\<lambda>i. 0x55))
               (Some (\<lambda>i. if i < 6 then padPattern ! (i mod 4) else 0xFF)) 6 3 1))) [8, 9, 10, 11]
     = [0, 0, 184, 255]
   \<and> yuy2_pattern_frame padPattern (\<lambda>i. if i < 6 then padPattern ! (i mod 4) else 0) 6
   \<and> map (the (res_dst (ConvertYUY2toRGB32 gYuvRgbTables 5 (Some (\<lambda>i. 0x55))
               (Some (\<lambda>i. if i < 6 then padPattern ! (i mod 4) else 0)) 6 3 1))) [8, 9, 10, 11]
     = [0, 85, 0, 255]"
  by (simp add: yuy2_pattern_frame_def ConvertYUY2toRGB32_def Let_def ready_tables_eq
        tables_wf_def convert_rows.simps convert_row.simps padPattern_def
        convert_macropixel_bt601 bt601_def clamp255_def store_bytes_def)

section \<open>Proofs: the audio ring buffer\<close>

lemma ring_space:
  assumes "fAudioRingHead a < fAudioRingSize a" "fAudioRingTail a < fAudioRingSize a"
  shows "(if fAudioRingHead a \<ge> fAudioRingTail a
          then fAudioRingSize a - fAudioRingHead a + fAudioRingTail a - 1
          else fAudioRingTail a - fAudioRingHead a - 1) = ring_free a"
proof (cases "fAudioRingHead a \<ge> fAudioRingTail a")
  case True
  then have e: "fAudioRingHead a + fAudioRingSize a - fAudioRingTail a
      = fAudioRingSize a + (fAudioRingHead a - fAudioRingTail a)" by simp
  have l: "fAudioRingHead a - fAudioRingTail a < fAudioRingSize a" using assms by simp
  have "ring_available a = (fAudioRingSize a + (fAudioRingHead a - fAudioRingTail a)) mod fAudioRingSize a"
    unfolding ring_available_def e ..
  also have "\<dots> = fAudioRingHead a - fAudioRingTail a" using l by simp
  finally have "ring_available a = fAudioRingHead a - fAudioRingTail a" .
  with True assms show ?thesis by (simp add: ring_free_def)
next
  case False
  then have "fAudioRingHead a + fAudioRingSize a - fAudioRingTail a < fAudioRingSize a"
    using assms by simp
  then have "ring_available a = fAudioRingHead a + fAudioRingSize a - fAudioRingTail a"
    by (simp add: ring_available_def)
  with False assms show ?thesis by (simp add: ring_free_def)
qed

lemma ring_free_less: 
  assumes "0 < fAudioRingSize a" shows "ring_free a < fAudioRingSize a"
  using assms by (simp add: ring_free_def)

lemma ring_bytes_written:
  assumes h: "head < sz" and len: "length bs = n" and fit: "n < sz"
  shows "ring_bytes
           (if sz - head \<ge> n then store_bytes m head (take n bs)
            else store_bytes (store_bytes m head (take (sz - head) bs)) 0
                   (take (n - (sz - head)) (drop (sz - head) bs)))
           sz head n = bs"
proof (rule nth_equalityI)
  show "length (ring_bytes
           (if sz - head \<ge> n then store_bytes m head (take n bs)
            else store_bytes (store_bytes m head (take (sz - head) bs)) 0
                   (take (n - (sz - head)) (drop (sz - head) bs)))
           sz head n) = length bs"
    using len by (simp add: ring_bytes_def)
next
  fix k
  assume "k < length (ring_bytes
           (if sz - head \<ge> n then store_bytes m head (take n bs)
            else store_bytes (store_bytes m head (take (sz - head) bs)) 0
                   (take (n - (sz - head)) (drop (sz - head) bs)))
           sz head n)"
  then have k: "k < n" by (simp add: ring_bytes_def)
  show "ring_bytes
           (if sz - head \<ge> n then store_bytes m head (take n bs)
            else store_bytes (store_bytes m head (take (sz - head) bs)) 0
                   (take (n - (sz - head)) (drop (sz - head) bs)))
           sz head n ! k = bs ! k"
  proof (cases "sz - head \<ge> n")
    case True
    then have "head + k < sz" using k by simp
    then have "(head + k) mod sz = head + k" by simp
    with True k len show ?thesis by (simp add: ring_bytes_def store_bytes_def)
  next
    case False
    show ?thesis
    proof (cases "k < sz - head")
      case True
      then have lt: "head + k < sz" by simp
      then have m: "(head + k) mod sz = head + k" by simp
      have "\<not> head + k < n - (sz - head)" using fit h by simp
      with False True k len m lt show ?thesis by (simp add: ring_bytes_def store_bytes_def)
    next
      case nk: False
      then have e: "head + k = sz + (k - (sz - head))" using h by simp
      have l: "k - (sz - head) < sz" using k fit by simp
      have "(head + k) mod sz = (sz + (k - (sz - head))) mod sz" unfolding e ..
      also have "\<dots> = k - (sz - head)" using l by simp
      finally have m: "(head + k) mod sz = k - (sz - head)" .
      have "k - (sz - head) < n - (sz - head)" using k nk by simp
      with False nk k len m show ?thesis by (simp add: ring_bytes_def store_bytes_def)
    qed
  qed
qed

text \<open>
  Claim C9 (as amended). A packet with status OK and a positive length is copied into
  the ring exactly when the free space \<open>capacity - available - 1\<close> is at least its
  length: then its bytes stand in the ring from the old head on, wrapping at the end,
  and the head has advanced by its length modulo the capacity. Otherwise the whole
  packet is dropped and the state of the pump is unchanged: the head stays, and no
  counter records the drop. A packet with another status or of length 0 is skipped.
\<close>

theorem audio_ring_write:
  assumes "fAudioRingHead a < fAudioRingSize a" and "fAudioRingTail a < fAudioRingSize a"
    and "0 < actual" and "length packetData = nat actual"
  shows "(if nat actual \<le> ring_free a
          then fAudioRingHead (audio_copy_packet B_OK actual packetData a)
                 = (fAudioRingHead a + nat actual) mod fAudioRingSize a
               \<and> ring_bytes (fAudioRingBuffer (audio_copy_packet B_OK actual packetData a))
                    (fAudioRingSize a) (fAudioRingHead a) (nat actual) = packetData
               \<and> fAudioRingTail (audio_copy_packet B_OK actual packetData a) = fAudioRingTail a
               \<and> fAudioRingSize (audio_copy_packet B_OK actual packetData a) = fAudioRingSize a
          else audio_copy_packet B_OK actual packetData a = a)
       \<and> ring_available a + ring_free a + 1 = fAudioRingSize a
       \<and> (\<forall>st. st \<noteq> B_OK \<longrightarrow> audio_copy_packet st actual packetData a = a)
       \<and> audio_copy_packet B_OK 0 packetData a = a"
proof -
  note sp = ring_space [OF assms(1,2)]
  have pos: "0 < fAudioRingSize a" using assms(1) by simp
  have inv: "ring_available a + ring_free a + 1 = fAudioRingSize a"
    using pos by (simp add: ring_free_def ring_available_def Suc_leI)
  have skip: "\<forall>st. st \<noteq> B_OK \<longrightarrow> audio_copy_packet st actual packetData a = a"
    "audio_copy_packet B_OK 0 packetData a = a"
    by (simp_all add: audio_copy_packet_def)
  show ?thesis
  proof (cases "nat actual \<le> ring_free a")
    case False
    then have "audio_copy_packet B_OK actual packetData a = a"
      using assms(3) unfolding audio_copy_packet_def Let_def sp by simp
    with False inv skip show ?thesis by simp
  next
    case True
    have fit: "nat actual < fAudioRingSize a" using True ring_free_less [OF pos] by simp
    define ring where "ring = (if fAudioRingSize a - fAudioRingHead a \<ge> nat actual
                  then store_bytes (fAudioRingBuffer a) (fAudioRingHead a) (take (nat actual) packetData)
                  else store_bytes
                         (store_bytes (fAudioRingBuffer a) (fAudioRingHead a)
                            (take (fAudioRingSize a - fAudioRingHead a) packetData))
                         0 (take (nat actual - (fAudioRingSize a - fAudioRingHead a))
                              (drop (fAudioRingSize a - fAudioRingHead a) packetData)))"
    have r: "audio_copy_packet B_OK actual packetData a =
        a\<lparr>fAudioRingBuffer := ring,
          fAudioRingHead := (fAudioRingHead a + nat actual) mod fAudioRingSize a\<rparr>"
      using assms(3) True unfolding audio_copy_packet_def Let_def sp ring_def by simp
    have b: "ring_bytes ring (fAudioRingSize a) (fAudioRingHead a) (nat actual) = packetData"
      unfolding ring_def by (rule ring_bytes_written [OF assms(1) assms(4) fit])
    have "fAudioRingHead (audio_copy_packet B_OK actual packetData a)
                 = (fAudioRingHead a + nat actual) mod fAudioRingSize a"
      "ring_bytes (fAudioRingBuffer (audio_copy_packet B_OK actual packetData a))
                    (fAudioRingSize a) (fAudioRingHead a) (nat actual) = packetData"
      "fAudioRingTail (audio_copy_packet B_OK actual packetData a) = fAudioRingTail a"
      "fAudioRingSize (audio_copy_packet B_OK actual packetData a) = fAudioRingSize a"
      unfolding r using b by simp_all
    with True inv skip show ?thesis by simp
  qed
qed

theorem audio_ring_write_witness:
  "ring_free ring_s6 = 0
   \<and> fAudioRingHead (audio_copy_packet B_OK 1 [8] ring_s6) = 7
   \<and> fst (ReadAudioData 4 ring_s6) = [1, 2, 3, 4]
   \<and> fAudioRingTail (snd (ReadAudioData 4 ring_s6)) = 4
   \<and> fAudioRingHead (audio_copy_packet B_OK 3 [8, 9, 10] (snd (ReadAudioData 4 ring_s6))) = 2
   \<and> ring_bytes (fAudioRingBuffer (audio_copy_packet B_OK 3 [8, 9, 10] (snd (ReadAudioData 4 ring_s6))))
        8 7 3 = [8, 9, 10]"
proof -
  define b where "b = snd (ReadAudioData 4 ring_s6)"
  have f6: "ring_free ring_s6 = 0" by (simp add: ring_free_def ring_available_def ring_s6_def)
  have rd: "fst (ReadAudioData 4 ring_s6) = [1, 2, 3, 4]"
    by (simp add: ReadAudioData_def ring_s6_def Let_def ring_bytes_def store_bytes_def
          upt_rec [of _ "numeral _"])
  have rb: "fAudioRingTail b = 4" "fAudioRingHead b = 7" "fAudioRingSize b = 8"
    unfolding b_def by (simp_all add: ReadAudioData_def ring_s6_def Let_def)
  have fb: "ring_free b = 4" using rb by (simp add: ring_free_def ring_available_def)
  have t1: "audio_copy_packet B_OK 1 [8] ring_s6 = ring_s6"
    using audio_ring_write [of ring_s6 1 "[8]"] f6 by (simp add: ring_s6_def)
  have t2: "fAudioRingHead (audio_copy_packet B_OK 3 [8, 9, 10] b) = 2
      \<and> ring_bytes (fAudioRingBuffer (audio_copy_packet B_OK 3 [8, 9, 10] b)) 8 7 3 = [8, 9, 10]"
    using audio_ring_write [of b 3 "[8, 9, 10]"] rb fb by simp
  from f6 rd rb t1 t2 show ?thesis unfolding b_def by (simp add: ring_s6_def)
qed

text \<open>
  The claim as first stated fails on its overflow counter: in scenario S6 the write of
  one byte into the full ring returns the state of the pump as it was, with every
  counter the thread has.
\<close>

theorem audio_overflow_not_counted_counterexample:
  "ring_free ring_s6 = 0
   \<and> audio_copy_packet B_OK 1 [8] ring_s6 = ring_s6
   \<and> transferCount (audio_copy_packet B_OK 1 [8] ring_s6) = transferCount ring_s6
   \<and> errorCount (audio_copy_packet B_OK 1 [8] ring_s6) = errorCount ring_s6
   \<and> consecutiveErrors (audio_copy_packet B_OK 1 [8] ring_s6) = consecutiveErrors ring_s6"
  by (simp add: audio_copy_packet_def ring_s6_def Let_def ring_free_def ring_available_def)


section \<open>Proofs: source reads of the conversion\<close>

text \<open>
  Claim C10. On the first call for a source of 4 bytes (one row of two pixels) the
  diagnostics block reads the source at the offsets 0 to 7, past its end, before the
  row is converted; and with the diagnostics over, a row of an odd width of 3 pixels in
  a source of 6 bytes is read at the offsets 0 to 7 as well.
\<close>

theorem convert_reads_past_source:
  "res_reads (ConvertYUY2toRGB32 gYuvRgbTables 0 (Some (\<lambda>i. 0)) (Some (\<lambda>i. 0)) 4 2 1)
     = [0, 1, 2, 3, 4, 5, 6, 7, 0, 1, 2, 3]
   \<and> res_reads (ConvertYUY2toRGB32 gYuvRgbTables 5 (Some (\<lambda>i. 0)) (Some (\<lambda>i. 0)) 6 3 1)
     = [0, 1, 2, 3, 4, 5, 6, 7]"
  by (simp add: ConvertYUY2toRGB32_def diag_reads_def gYuvRgbTables_def Let_def
        convert_rows.simps convert_row.simps)

end
